theory Spec2Isabelle
  imports Main
begin

section \<open>Strings, errors and Python's string primitives\<close>

text \<open>
  The program is \<^verbatim>\<open>enigma.py\<close>. A Python \<^verbatim>\<open>str\<close> is modelled as a \<^typ>\<open>string\<close>: a list
  of characters, each read as the code point of the same number (U+0000 to U+00FF).
  Exceptions are values of \<^verbatim>\<open>error\<close>; a computation that can raise returns
  \<^verbatim>\<open>error + 'a\<close>, with \<^verbatim>\<open>Inl\<close> for the exception.
\<close>

datatype error = RotorError | EnigmaError | ValueError | TypeError | IndexError

definition rbind :: "error + 'a \<Rightarrow> ('a \<Rightarrow> error + 'b) \<Rightarrow> error + 'b" where
  "rbind m f = (case m of Inl e \<Rightarrow> Inl e | Inr x \<Rightarrow> f x)"

text \<open>A list comprehension whose body can raise: the first exception wins.\<close>

fun map_result :: "('a \<Rightarrow> error + 'b) \<Rightarrow> 'a list \<Rightarrow> error + 'b list" where
  "map_result f [] = Inr []"
| "map_result f (x # xs) =
     (case f x of Inl e \<Rightarrow> Inl e
      | Inr y \<Rightarrow> (case map_result f xs of Inl e \<Rightarrow> Inl e | Inr ys \<Rightarrow> Inr (y # ys)))"

text \<open>A \<^verbatim>\<open>for\<close> loop that threads one value through a sequence of calls that can raise.\<close>

fun fold_result :: "('a \<Rightarrow> 's \<Rightarrow> error + 's) \<Rightarrow> 'a list \<Rightarrow> 's \<Rightarrow> error + 's" where
  "fold_result f [] s = Inr s"
| "fold_result f (x # xs) s =
     (case f x s of Inl e \<Rightarrow> Inl e | Inr s' \<Rightarrow> fold_result f xs s')"

definition ABC :: string where
  "ABC = ''ABCDEFGHIJKLMNOPQRSTUVWXYZ''"

text \<open>
  \<^verbatim>\<open>str.isalpha\<close> on one character, for the code points below 256: the letters are
  A-Z, a-z, U+00AA, U+00B5, U+00BA, U+00C0-U+00D6, U+00D8-U+00F6 and U+00F8-U+00FF.
\<close>

definition isalpha_chr :: "char \<Rightarrow> bool" where
  "isalpha_chr c =
     (let n = (of_char c :: nat) in
        (65 \<le> n \<and> n \<le> 90) \<or> (97 \<le> n \<and> n \<le> 122) \<or> n = 170 \<or> n = 181 \<or> n = 186 \<or>
        (192 \<le> n \<and> n \<le> 214) \<or> (216 \<le> n \<and> n \<le> 246) \<or> (248 \<le> n \<and> n \<le> 255))"

text \<open>\<^verbatim>\<open>s.isalpha()\<close>: the string is not empty and every character is a letter.\<close>

definition isalpha :: "string \<Rightarrow> bool" where
  "isalpha s = (s \<noteq> [] \<and> list_all isalpha_chr s)"

text \<open>
  \<^verbatim>\<open>str.upper\<close> on one character. The result is a string: U+00DF (sharp s) becomes
  \<^verbatim>\<open>SS\<close>. The upper-case forms of U+00B5 and U+00FF (U+039C and U+0178) lie beyond
  code point 255; the model leaves these two characters as they are. Both are letters
  outside \<^verbatim>\<open>ABC\<close> before and after, and no other character is mapped to them.
\<close>

definition upper_chr :: "char \<Rightarrow> string" where
  "upper_chr c =
     (let n = (of_char c :: nat) in
        if 97 \<le> n \<and> n \<le> 122 then [char_of (n - 32)]
        else if n = 223 then ''SS''
        else if (224 \<le> n \<and> n \<le> 246) \<or> (248 \<le> n \<and> n \<le> 254) then [char_of (n - 32)]
        else [c])"

definition upper :: "string \<Rightarrow> string" where
  "upper s = concat (map upper_chr s)"

text \<open>\<^verbatim>\<open>s.index(c)\<close> for a one-character \<^verbatim>\<open>c\<close>: the first position, or ValueError.\<close>

fun index_str :: "string \<Rightarrow> char \<Rightarrow> error + int" where
  "index_str [] c = Inl ValueError"
| "index_str (x # xs) c =
     (if x = c then Inr 0
      else (case index_str xs c of Inl e \<Rightarrow> Inl e | Inr i \<Rightarrow> Inr (i + 1)))"

text \<open>
  \<^verbatim>\<open>ABC.index(s)\<close> for a string \<^verbatim>\<open>s\<close> that is the upper-case form of one character:
  a one-character string is looked up; the only longer one, \<^verbatim>\<open>SS\<close>, is not a
  substring of \<^verbatim>\<open>ABC\<close>.
\<close>

definition ABC_index :: "string \<Rightarrow> error + int" where
  "ABC_index s = (case s of [c] \<Rightarrow> index_str ABC c | _ \<Rightarrow> Inl ValueError)"

text \<open>\<^verbatim>\<open>xs[i]\<close> with Python's negative indices; IndexError out of range.\<close>

definition getitem :: "'a list \<Rightarrow> int \<Rightarrow> error + 'a" where
  "getitem xs i =
     (if 0 \<le> i \<and> i < int (length xs) then Inr (xs ! nat i)
      else if i < 0 \<and> - int (length xs) \<le> i then Inr (xs ! nat (int (length xs) + i))
      else Inl IndexError)"

text \<open>\<^verbatim>\<open>ABC[i % 26]\<close>: the index is always in range.\<close>

definition ABC_at :: "int \<Rightarrow> char" where
  "ABC_at i = ABC ! nat (i mod 26)"

section \<open>Rotor\<close>

text \<open>
  \<^verbatim>\<open>class Rotor\<close>: the upper-cased wiring, the ring as a number and the notches as a
  set of numbers, or \<^verbatim>\<open>None\<close>. The class defines no \<^verbatim>\<open>__eq__\<close>, so Python compares
  rotors by identity; the model compares their fields, which agrees on the named
  rotors and reflectors below (their wirings differ).
\<close>

record rotor =
  wiring :: string
  ring :: int
  notch :: "int set option"

definition Rotor :: "string \<Rightarrow> string option \<Rightarrow> string \<Rightarrow> error + rotor" where
  "Rotor w n r =
     (if length w \<noteq> 26 \<or> \<not> isalpha w \<or> card (set w) < 26 then Inl RotorError
      else if length r \<noteq> 1 \<or> \<not> isalpha r then Inl ValueError
      else rbind (ABC_index (upper r)) (\<lambda>ri.
        case n of
          None \<Rightarrow> Inr \<lparr>wiring = upper w, ring = ri, notch = None\<rparr>
        | Some ns \<Rightarrow>
            if length ns \<notin> {1, 2} then Inl ValueError
            else rbind (map_result (index_str ABC) ns) (\<lambda>js.
              Inr \<lparr>wiring = upper w, ring = ri, notch = Some (set js)\<rparr>)))"

section \<open>The rotor inside a machine\<close>

text \<open>
  \<^verbatim>\<open>class _InternalRotor(Rotor)\<close>: a rotor with a position and the cached mapping.
\<close>

record irotor = rotor +
  baserotor :: rotor
  pos :: int
  mapping :: string

text \<open>
  \<^verbatim>\<open>remap\<close>: the list \<^verbatim>\<open>w\<close> is built first (and can raise), then the mapping is
  assigned. The slices \<^verbatim>\<open>w[k:]\<close> and \<^verbatim>\<open>w[:k]\<close> with \<^verbatim>\<open>k \<ge> 0\<close> are \<^verbatim>\<open>drop\<close> and \<^verbatim>\<open>take\<close>.
\<close>

definition remap :: "irotor \<Rightarrow> error + irotor" where
  "remap r =
     rbind (map_result (\<lambda>c. rbind (index_str ABC c) (\<lambda>i. Inr (ABC_at (i + ring r)))) (wiring r))
       (\<lambda>w. let k = nat ((pos r - ring r) mod 26) in Inr (r\<lparr>mapping := drop k w @ take k w\<rparr>))"

text \<open>
  \<^verbatim>\<open>_InternalRotor.__init__\<close>. The notch set is written back as letters and parsed again
  by \<^verbatim>\<open>Rotor.__init__\<close>; Python iterates the set in an unspecified order, the model in
  ascending order, and the result is a set again.
\<close>

definition InternalRotor :: "rotor \<Rightarrow> string \<Rightarrow> error + irotor" where
  "InternalRotor b p =
     rbind (case notch b of
              None \<Rightarrow> Inr None
            | Some S \<Rightarrow> rbind (map_result (getitem ABC) (sorted_list_of_set S)) (\<lambda>s. Inr (Some s)))
       (\<lambda>notches.
     rbind (getitem ABC (ring b)) (\<lambda>rc.
     rbind (Rotor (wiring b) notches [rc]) (\<lambda>r.
       if length p = 1 \<and> isalpha p then
         rbind (ABC_index (upper p)) (\<lambda>i.
           remap \<lparr>wiring = wiring r, ring = ring r, notch = notch r,
                  baserotor = b, pos = i, mapping = []\<rparr>)
       else Inl RotorError)))"

definition right2left :: "irotor \<Rightarrow> char \<Rightarrow> error + char" where
  "right2left r c =
     rbind (index_str ABC c) (\<lambda>i.
     rbind (getitem (mapping r) (i mod 26)) (\<lambda>newchar.
     rbind (index_str ABC newchar) (\<lambda>j. Inr (ABC_at (j - pos r)))))"

definition left2right :: "irotor \<Rightarrow> char \<Rightarrow> error + char" where
  "left2right r c =
     rbind (index_str ABC c) (\<lambda>i.
     rbind (index_str (mapping r) (ABC_at (i + pos r))) (\<lambda>j. Inr (ABC_at j)))"

text \<open>
  \<^verbatim>\<open>turn\<close>: \<^verbatim>\<open>mapping[1:] + mapping[0]\<close> raises IndexError on an empty mapping.
\<close>

definition turn :: "irotor \<Rightarrow> error + irotor" where
  "turn r =
     (case mapping r of
        [] \<Rightarrow> Inl IndexError
      | x # xs \<Rightarrow> Inr (r\<lparr>pos := (pos r + 1) mod 26, mapping := xs @ [x]\<rparr>))"

section \<open>Reflector\<close>

text \<open>
  \<^verbatim>\<open>Reflector.__init__\<close>: a rotor without notches whose wiring passes the loop over
  \<^verbatim>\<open>enumerate(ABC)\<close>. The test \<^verbatim>\<open>w[i] != ABC[w.index(c)]\<close> evaluates \<^verbatim>\<open>w[i]\<close>, then
  \<^verbatim>\<open>w.index(c)\<close>, then the lookup in \<^verbatim>\<open>ABC\<close>; each can raise.
\<close>

fun reflector_loop :: "string \<Rightarrow> (nat \<times> char) list \<Rightarrow> error option" where
  "reflector_loop w [] = None"
| "reflector_loop w ((i, c) # rest) =
     (case getitem w (int i) of
        Inl e \<Rightarrow> Some e
      | Inr x \<Rightarrow>
          (case index_str w c of
             Inl e \<Rightarrow> Some e
           | Inr j \<Rightarrow>
               (case getitem ABC j of
                  Inl e \<Rightarrow> Some e
                | Inr y \<Rightarrow> if x \<noteq> y then Some RotorError else reflector_loop w rest)))"

definition Reflector :: "string \<Rightarrow> error + rotor" where
  "Reflector w =
     rbind (Rotor w None ''A'') (\<lambda>r.
       case reflector_loop (upper w) (enumerate 0 ABC) of
         Some e \<Rightarrow> Inl e
       | None \<Rightarrow> Inr r)"

text \<open>\<^verbatim>\<open>class _InternalReflector\<close>: the reflector of a machine, with its definition.\<close>

record ireflector = rotor +
  basereflector :: rotor

definition InternalReflector :: "rotor \<Rightarrow> error + ireflector" where
  "InternalReflector b =
     rbind (Reflector (wiring b)) (\<lambda>r.
       Inr \<lparr>wiring = wiring r, ring = ring r, notch = notch r, basereflector = b\<rparr>)"

definition reflect :: "ireflector \<Rightarrow> char \<Rightarrow> error + char" where
  "reflect r c = rbind (ABC_index (upper [c])) (\<lambda>i. getitem (wiring r) i)"

section \<open>The named rotors and reflectors\<close>

definition I :: rotor where
  "I = projr (Rotor ''EKMFLGDQVZNTOWYHXUSPAIBRCJ'' (Some ''Q'') ''A'')"

definition II :: rotor where
  "II = projr (Rotor ''AJDKSIRUXBLHWTMCQGZNPYFVOE'' (Some ''E'') ''A'')"

definition III :: rotor where
  "III = projr (Rotor ''BDFHJLCPRTXVZNYEIWGAKMUSQO'' (Some ''V'') ''A'')"

definition IV :: rotor where
  "IV = projr (Rotor ''ESOVPZJAYQUIRHXLNFTGKDCMWB'' (Some ''J'') ''A'')"

definition V :: rotor where
  "V = projr (Rotor ''VZBRGITYUPSDNHLXAWMJQOFECK'' (Some ''Z'') ''A'')"

definition VI :: rotor where
  "VI = projr (Rotor ''JPGVOUMFYQBENHZRDKASXLICTW'' (Some ''ZM'') ''A'')"

definition VII :: rotor where
  "VII = projr (Rotor ''NZJHGRCXMYSWBOUFAIVLPEKQDT'' (Some ''ZM'') ''A'')"

definition VIII :: rotor where
  "VIII = projr (Rotor ''FKQHTLXOCBJSPDZRAMEWNIUYGV'' (Some ''ZM'') ''A'')"

definition BETA :: rotor where
  "BETA = projr (Rotor ''LEYJVCNIXWPBQMDRTAKZGFUHOS'' None ''A'')"

definition GAMMA :: rotor where
  "GAMMA = projr (Rotor ''FSOKANUERHMBTIYCWLQPZXVGJD'' None ''A'')"

definition UKWB :: rotor where
  "UKWB = projr (Reflector ''YRUHQSLDPXNGOKMIEBFZCWVJAT'')"

definition UKWC :: rotor where
  "UKWC = projr (Reflector ''FVPJIAOYEDRZXWGCTKUQSBNMHL'')"

definition UKWB_THIN :: rotor where
  "UKWB_THIN = projr (Reflector ''ENKQAUYWJICOPBLMDXZVFTHRGS'')"

definition UKWC_THIN :: rotor where
  "UKWC_THIN = projr (Reflector ''RDOBJNTKVEHMLFCWZAXGYIPSUQ'')"

definition ROTORLIST :: "(rotor \<times> string) list" where
  "ROTORLIST =
     [(I, ''I''), (II, ''II''), (III, ''III''), (IV, ''IV''), (V, ''V''), (VI, ''VI''),
      (VII, ''VII''), (VIII, ''VIII''), (BETA, ''BETA''), (GAMMA, ''GAMMA'')]"

definition REFLECTORLIST :: "(rotor \<times> string) list" where
  "REFLECTORLIST =
     [(UKWB, ''UKWB''), (UKWC, ''UKWC''),
      (UKWB_THIN, ''UKWB_THIN''), (UKWC_THIN, ''UKWC_THIN'')]"

section \<open>The machine\<close>

text \<open>
  \<^verbatim>\<open>class Enigma\<close>. The fields are the attributes \<^verbatim>\<open>_rotors\<close>, \<^verbatim>\<open>_reflector\<close>,
  \<^verbatim>\<open>_plugboard\<close> (a dict) and \<^verbatim>\<open>doublestep\<close>. A property setter mutates the machine and
  can raise half-way: it returns the exception, if any, and the machine as it is left.
\<close>

record enigma =
  m_rotors :: "irotor list"
  m_reflector :: ireflector
  m_plugboard :: "char \<rightharpoonup> char"
  doublestep :: bool

definition setter_then :: "error option \<times> enigma \<Rightarrow> (enigma \<Rightarrow> error + 'a) \<Rightarrow> error + 'a" where
  "setter_then m f = (case m of (Some err, _) \<Rightarrow> Inl err | (None, e) \<Rightarrow> f e)"

text \<open>The getters \<^verbatim>\<open>grundstellung\<close> and \<^verbatim>\<open>ringstellung\<close>.\<close>

definition grundstellung :: "enigma \<Rightarrow> error + string" where
  "grundstellung e = map_result (\<lambda>r. getitem ABC (pos r)) (m_rotors e)"

definition ringstellung :: "enigma \<Rightarrow> error + string" where
  "ringstellung e = map_result (\<lambda>r. getitem ABC (ring r)) (m_rotors e)"

text \<open>
  The loop of the \<^verbatim>\<open>grundstellung\<close> setter over \<^verbatim>\<open>zip(self._rotors, grundstellung.upper())\<close>:
  each rotor gets its position, then is remapped. A rotor already assigned stays so
  when a later letter raises.
\<close>

fun grundstellung_loop :: "irotor list \<Rightarrow> string \<Rightarrow> error option \<times> irotor list" where
  "grundstellung_loop (r # rs) (c # cs) =
     (case index_str ABC c of
        Inl err \<Rightarrow> (Some err, r # rs)
      | Inr i \<Rightarrow>
          (case remap (r\<lparr>pos := i\<rparr>) of
             Inl err \<Rightarrow> (Some err, r\<lparr>pos := i\<rparr> # rs)
           | Inr r' \<Rightarrow> (case grundstellung_loop rs cs of (err, rs') \<Rightarrow> (err, r' # rs'))))"
| "grundstellung_loop rs cs = (None, rs)"

definition grundstellung_set :: "enigma \<Rightarrow> string \<Rightarrow> error option \<times> enigma" where
  "grundstellung_set e g =
     (if \<not> isalpha g then (Some ValueError, e)
      else if length g \<noteq> length (m_rotors e) then (Some EnigmaError, e)
      else (case grundstellung_loop (m_rotors e) (upper g) of
              (err, rs) \<Rightarrow> (err, e\<lparr>m_rotors := rs\<rparr>)))"

fun ringstellung_loop :: "irotor list \<Rightarrow> string \<Rightarrow> error option \<times> irotor list" where
  "ringstellung_loop (r # rs) (c # cs) =
     (case index_str ABC c of
        Inl err \<Rightarrow> (Some err, r # rs)
      | Inr i \<Rightarrow>
          (case remap (r\<lparr>ring := i\<rparr>) of
             Inl err \<Rightarrow> (Some err, r\<lparr>ring := i\<rparr> # rs)
           | Inr r' \<Rightarrow> (case ringstellung_loop rs cs of (err, rs') \<Rightarrow> (err, r' # rs'))))"
| "ringstellung_loop rs cs = (None, rs)"

definition ringstellung_set :: "enigma \<Rightarrow> string \<Rightarrow> error option \<times> enigma" where
  "ringstellung_set e g =
     (if length (m_rotors e) \<noteq> length g then (Some EnigmaError, e)
      else if \<not> isalpha g then (Some ValueError, e)
      else (case ringstellung_loop (m_rotors e) (upper g) of
              (err, rs) \<Rightarrow> (err, e\<lparr>m_rotors := rs\<rparr>)))"

text \<open>
  The \<^verbatim>\<open>plugboard\<close> setter. The loop compares \<^verbatim>\<open>pair[0]\<close> and \<^verbatim>\<open>pair[1]\<close> before
  upper-casing the pair, then stores both directions.
\<close>

fun plugboard_loop :: "(char \<rightharpoonup> char) \<Rightarrow> string list \<Rightarrow> error option \<times> (char \<rightharpoonup> char)" where
  "plugboard_loop m [] = (None, m)"
| "plugboard_loop m (pair # ps) =
     (case pair of
        a # b # _ \<Rightarrow>
          if a = b then plugboard_loop m ps
          else (case upper pair of
                  x # y # _ \<Rightarrow> plugboard_loop (m(x \<mapsto> y, y \<mapsto> x)) ps
                | _ \<Rightarrow> (Some IndexError, m))
      | _ \<Rightarrow> (Some IndexError, m))"

definition plugboard_set :: "enigma \<Rightarrow> string list \<Rightarrow> error option \<times> enigma" where
  "plugboard_set e plugboard =
     (if plugboard = [] then (None, e\<lparr>m_plugboard := Map.empty\<rparr>)
      else
        let plugstr = concat plugboard in
        if (\<exists>p \<in> set plugboard. length p \<noteq> 2) \<or> \<not> isalpha plugstr then (Some ValueError, e)
        else if (\<exists>c \<in> set plugstr. count_list plugstr c > 1) then (Some ValueError, e)
        else (case plugboard_loop Map.empty plugboard of
                (err, m) \<Rightarrow> (err, e\<lparr>m_plugboard := m\<rparr>)))"

definition reflector_set :: "enigma \<Rightarrow> rotor \<Rightarrow> error option \<times> enigma" where
  "reflector_set e reflector =
     (case InternalReflector reflector of
        Inl err \<Rightarrow> (Some err, e)
      | Inr rf \<Rightarrow> (None, e\<lparr>m_reflector := rf\<rparr>))"

text \<open>
  The \<^verbatim>\<open>rotors\<close> setter: the tuple of internal rotors is built whole before it is
  assigned.
\<close>

definition rotors_set :: "enigma \<Rightarrow> rotor list \<Rightarrow> error option \<times> enigma" where
  "rotors_set e rotors =
     (let build = (case map_result (\<lambda>r. InternalRotor r ''A'') rotors of
                     Inl err \<Rightarrow> (Some err, e)
                   | Inr rs \<Rightarrow> (None, e\<lparr>m_rotors := rs\<rparr>)) in
      if length rotors = 3 then
        (if BETA \<in> set rotors \<or> GAMMA \<in> set rotors then (Some EnigmaError, e)
         else if basereflector (m_reflector e) \<in> {UKWB_THIN, UKWC_THIN} then (Some EnigmaError, e)
         else build)
      else if length rotors = 4 then
        (if rotors ! 0 \<notin> {BETA, GAMMA} then (Some EnigmaError, e)
         else if basereflector (m_reflector e) \<in> {UKWB, UKWC} then (Some EnigmaError, e)
         else build)
      else (Some EnigmaError, e))"

text \<open>
  \<^verbatim>\<open>Enigma.__init__\<close>: reflector, rotors, ring settings, positions, plugboard, in this
  order; an empty \<^verbatim>\<open>ringstellung\<close> or \<^verbatim>\<open>grundstellung\<close> stands for all \<^verbatim>\<open>A\<close>. The flag is
  a \<^typ>\<open>bool\<close>, so the final type test cannot fail. The attributes not yet assigned
  are never read; the model starts them empty.
\<close>

definition Enigma ::
  "rotor list \<Rightarrow> rotor \<Rightarrow> string \<Rightarrow> string list \<Rightarrow> bool \<Rightarrow> string \<Rightarrow> error + enigma" where
  "Enigma rotors reflector ringst plugboard ds grundst =
     rbind (InternalReflector reflector) (\<lambda>rf.
     setter_then (rotors_set \<lparr>m_rotors = [], m_reflector = rf, m_plugboard = Map.empty,
                              doublestep = ds\<rparr> rotors) (\<lambda>e1.
     setter_then (ringstellung_set e1
        (if ringst = [] then replicate (length rotors) (CHR ''A'') else ringst)) (\<lambda>e2.
     setter_then (grundstellung_set e2
        (if grundst = [] then replicate (length rotors) (CHR ''A'') else grundst)) (\<lambda>e3.
     setter_then (plugboard_set e3 plugboard) Inr))))"

section \<open>Encoding\<close>

text \<open>\<^verbatim>\<open>rotor.pos in rotor.notch\<close>: a TypeError when the rotor has no notches.\<close>

definition in_notch :: "irotor \<Rightarrow> error + bool" where
  "in_notch r = (case notch r of None \<Rightarrow> Inl TypeError | Some S \<Rightarrow> Inr (pos r \<in> S))"

text \<open>\<^verbatim>\<open>self._rotors[i].turn()\<close>, the rotor updated in its place.\<close>

definition turn_at :: "irotor list \<Rightarrow> int \<Rightarrow> error + irotor list" where
  "turn_at rs i =
     rbind (getitem rs i) (\<lambda>r.
     rbind (turn r) (\<lambda>r'.
       Inr (rs[nat (if i < 0 then int (length rs) + i else i) := r'])))"

text \<open>The stepping done before each character.\<close>

definition step :: "bool \<Rightarrow> irotor list \<Rightarrow> error + irotor list" where
  "step ds rs =
     rbind (if ds then rbind (getitem rs (- 2)) in_notch else Inr False) (\<lambda>dbl.
       if dbl then
         rbind (turn_at rs (- 2)) (\<lambda>rs1.
         rbind (turn_at rs1 (- 3)) (\<lambda>rs2. turn_at rs2 (- 1)))
       else
         rbind (rbind (getitem rs (- 1)) in_notch) (\<lambda>n1.
           if n1 then
             rbind (rbind (getitem rs (- 2)) in_notch) (\<lambda>n2.
             rbind (if n2 then turn_at rs (- 3) else Inr rs) (\<lambda>rs1.
             rbind (turn_at rs1 (- 2)) (\<lambda>rs2. turn_at rs2 (- 1))))
           else turn_at rs (- 1)))"

text \<open>\<^verbatim>\<open>self._plugboard.get(char, char)\<close>.\<close>

definition plug_get :: "(char \<rightharpoonup> char) \<Rightarrow> char \<Rightarrow> char" where
  "plug_get m c = (case m c of None \<Rightarrow> c | Some d \<Rightarrow> d)"

text \<open>The path of one character: plugboard, rotors, reflector, rotors, plugboard.\<close>

definition signal :: "enigma \<Rightarrow> char \<Rightarrow> error + char" where
  "signal e c =
     rbind (fold_result right2left (rev (m_rotors e)) (plug_get (m_plugboard e) c)) (\<lambda>c1.
     rbind (reflect (m_reflector e) c1) (\<lambda>c2.
     rbind (fold_result left2right (m_rotors e) c2) (\<lambda>c3.
       Inr (plug_get (m_plugboard e) c3))))"

text \<open>The loop of \<^verbatim>\<open>encode\<close> over the upper-cased message.\<close>

fun encode_loop :: "enigma \<Rightarrow> string \<Rightarrow> error + (string \<times> enigma)" where
  "encode_loop e [] = Inr ([], e)"
| "encode_loop e (c # cs) =
     (case step (doublestep e) (m_rotors e) of
        Inl err \<Rightarrow> Inl err
      | Inr rs \<Rightarrow>
          (case signal (e\<lparr>m_rotors := rs\<rparr>) c of
             Inl err \<Rightarrow> Inl err
           | Inr d \<Rightarrow>
               (case encode_loop (e\<lparr>m_rotors := rs\<rparr>) cs of
                  Inl err \<Rightarrow> Inl err
                | Inr (out, e') \<Rightarrow> Inr (d # out, e'))))"

text \<open>
  \<^verbatim>\<open>encode\<close> returns the ciphertext and the machine it leaves. The optional
  \<^verbatim>\<open>grundstellung\<close> is applied when it is given and not empty. The machine left behind
  by a call that raises is not modelled.
\<close>

definition encode :: "enigma \<Rightarrow> string \<Rightarrow> string option \<Rightarrow> error + (string \<times> enigma)" where
  "encode e message grundst =
     (if \<not> isalpha message then Inl EnigmaError
      else
        rbind (case grundst of
                 None \<Rightarrow> Inr e
               | Some g \<Rightarrow> if g = [] then Inr e else setter_then (grundstellung_set e g) Inr)
          (\<lambda>e1. encode_loop e1 (upper message)))"

section \<open>Predicates and functions of the statements\<close>

text \<open>A string that holds each letter of \<^verbatim>\<open>ABC\<close> once.\<close>

definition perm_ABC :: "string \<Rightarrow> bool" where
  "perm_ABC m = (distinct m \<and> set m = set ABC)"

text \<open>
  The letter \<^verbatim>\<open>ABC[(ABC.index(c) + k) % 26]\<close> that \<^verbatim>\<open>remap\<close> computes for a letter
  \<^verbatim>\<open>c\<close> of the wiring.
\<close>

definition shifted :: "int \<Rightarrow> char \<Rightarrow> char" where
  "shifted k c = ABC_at (projr (index_str ABC c) + k)"

text \<open>The letter a wiring gives for a letter: \<^verbatim>\<open>w[ABC.index(c)]\<close>.\<close>

definition wired :: "string \<Rightarrow> char \<Rightarrow> error + char" where
  "wired w c = rbind (index_str ABC c) (getitem w)"

text \<open>\<^verbatim>\<open>w[w[c]] == c\<close> for every letter \<^verbatim>\<open>c\<close> of the alphabet.\<close>

definition self_inverse :: "string \<Rightarrow> bool" where
  "self_inverse w = list_all (\<lambda>c. rbind (wired w c) (wired w) = Inr c) ABC"

text \<open>The letters \<^verbatim>\<open>a\<close> to \<^verbatim>\<open>z\<close> and \<^verbatim>\<open>A\<close> to \<^verbatim>\<open>Z\<close>.\<close>

definition ascii_letters :: string where
  "ascii_letters = ''abcdefghijklmnopqrstuvwxyz'' @ ABC"

text \<open>
  A rotor in working order: the wiring and the cached mapping each hold every letter
  of the alphabet once.
\<close>

definition wf_rotor :: "irotor \<Rightarrow> bool" where
  "wf_rotor r = (perm_ABC (wiring r) \<and> perm_ABC (mapping r))"

text \<open>
  The rotors of a machine in working order: three or four of them, each in working
  order, the two rightmost with notches.
\<close>

definition rotors_ok :: "irotor list \<Rightarrow> bool" where
  "rotors_ok rs =
     ((length rs = 3 \<or> length rs = 4) \<and> list_all wf_rotor rs \<and>
      notch (rs ! (length rs - 1)) \<noteq> None \<and> notch (rs ! (length rs - 2)) \<noteq> None)"

text \<open>
  A machine in working order: its rotors are, the reflector's wiring is a self-inverse
  permutation of the alphabet, and the plugboard swaps letters of the alphabet in pairs.
\<close>

definition valid_machine :: "enigma \<Rightarrow> bool" where
  "valid_machine e =
     (rotors_ok (m_rotors e) \<and>
      perm_ABC (wiring (m_reflector e)) \<and> self_inverse (wiring (m_reflector e)) \<and>
      list_all (\<lambda>c. plug_get (m_plugboard e) c \<in> set ABC \<and>
                     plug_get (m_plugboard e) (plug_get (m_plugboard e) c) = c) ABC)"

text \<open>A rotor without its position and its cached mapping: what stepping leaves alone.\<close>

definition frame :: "irotor \<Rightarrow> irotor" where
  "frame r = r\<lparr>pos := 0, mapping := []\<rparr>"

section \<open>Lists, indices and the alphabet\<close>

lemma rbind_Inr [simp]: "rbind (Inr x) f = f x"
  by (simp add: rbind_def)

lemma rbind_Inl [simp]: "rbind (Inl e) f = Inl e"
  by (simp add: rbind_def)

lemma rbind_eq_Inr: "rbind m f = Inr y \<longleftrightarrow> (\<exists>x. m = Inr x \<and> f x = Inr y)"
  by (cases m) simp_all

lemma index_str_props:
  "index_str xs c = Inr i \<Longrightarrow> 0 \<le> i \<and> i < int (length xs) \<and> xs ! nat i = c"
proof (induction xs arbitrary: i)
  case Nil
  then show ?case by simp
next
  case (Cons x xs)
  show ?case
  proof (cases "x = c")
    case True
    with Cons.prems show ?thesis by simp
  next
    case False
    with Cons.prems obtain j where j: "index_str xs c = Inr j" and i: "i = j + 1"
      by (auto split: sum.splits)
    from Cons.IH [OF j] have "0 \<le> j" "j < int (length xs)" "xs ! nat j = c" by simp_all
    with i show ?thesis by (simp add: nat_add_distrib)
  qed
qed

lemma index_str_mem: "c \<in> set xs \<Longrightarrow> \<exists>i. index_str xs c = Inr i"
  by (induction xs) auto

lemma index_str_notin: "c \<notin> set xs \<Longrightarrow> index_str xs c = Inl ValueError"
  by (induction xs) auto

lemma index_str_nth:
  "distinct xs \<Longrightarrow> n < length xs \<Longrightarrow> index_str xs (xs ! n) = Inr (int n)"
proof (induction xs arbitrary: n)
  case Nil
  then show ?case by simp
next
  case (Cons x xs)
  show ?case
  proof (cases n)
    case 0
    then show ?thesis by simp
  next
    case (Suc m)
    with Cons.prems have "m < length xs" "distinct xs" "xs ! m \<noteq> x"
      by auto
    with Cons.IH [of m] Suc show ?thesis by auto
  qed
qed

lemma length_ABC: "length ABC = 26"
  by (simp add: ABC_def)

lemma distinct_ABC: "distinct ABC"
  by (simp add: ABC_def)

lemma ABC_at_mem: "ABC_at i \<in> set ABC"
  unfolding ABC_at_def by (rule nth_mem) (simp add: length_ABC)

lemma index_ABC_at: "index_str ABC (ABC_at i) = Inr (i mod 26)"
  using index_str_nth [OF distinct_ABC, of "nat (i mod 26)"]
  by (simp add: ABC_at_def length_ABC)

lemma ABC_at_index: "index_str ABC c = Inr i \<Longrightarrow> ABC_at i = c"
  using index_str_props [of ABC c i] by (simp add: ABC_at_def length_ABC)

lemma index_ABC_range: "index_str ABC c = Inr i \<Longrightarrow> 0 \<le> i \<and> i < 26"
  using index_str_props [of ABC c i] by (simp add: length_ABC)

lemma ABC_at_cong: "a mod 26 = b mod 26 \<Longrightarrow> ABC_at a = ABC_at b"
  by (simp add: ABC_at_def)

lemma perm_ABC_length: "perm_ABC m \<Longrightarrow> length m = 26"
  using distinct_card [of m] distinct_card [OF distinct_ABC]
  by (simp add: perm_ABC_def length_ABC)

lemma right2left_value:
  assumes m: "perm_ABC (mapping r)" and c: "index_str ABC c = Inr i"
  shows "\<exists>j. index_str ABC (mapping r ! nat i) = Inr j \<and> right2left r c = Inr (ABC_at (j - pos r))"
proof -
  from index_ABC_range [OF c] have i: "0 \<le> i" "i < 26" by simp_all
  then have g: "getitem (mapping r) (i mod 26) = Inr (mapping r ! nat i)"
    by (simp add: getitem_def perm_ABC_length [OF m])
  from i have "mapping r ! nat i \<in> set (mapping r)"
    by (simp add: perm_ABC_length [OF m])
  then have "mapping r ! nat i \<in> set ABC" using m by (simp add: perm_ABC_def)
  then obtain j where j: "index_str ABC (mapping r ! nat i) = Inr j"
    using index_str_mem by blast
  show ?thesis using c g j by (simp add: right2left_def)
qed

lemma left2right_value:
  assumes m: "perm_ABC (mapping r)" and c: "index_str ABC c = Inr i"
  shows "\<exists>j. index_str (mapping r) (ABC_at (i + pos r)) = Inr j \<and> left2right r c = Inr (ABC_at j)"
proof -
  have "ABC_at (i + pos r) \<in> set (mapping r)"
    using m ABC_at_mem by (simp add: perm_ABC_def)
  then obtain j where "index_str (mapping r) (ABC_at (i + pos r)) = Inr j"
    using index_str_mem by blast
  then show ?thesis using c by (simp add: left2right_def)
qed

lemma left2right_right2left:
  assumes m: "perm_ABC (mapping r)" and c: "c \<in> set ABC"
  shows "\<exists>d. right2left r c = Inr d \<and> d \<in> set ABC \<and> left2right r d = Inr c"
proof -
  from c obtain i where i: "index_str ABC c = Inr i" using index_str_mem by blast
  from index_ABC_range [OF i] have ir: "0 \<le> i" "i < 26" by simp_all
  from right2left_value [OF m i] obtain j
    where j: "index_str ABC (mapping r ! nat i) = Inr j"
      and d: "right2left r c = Inr (ABC_at (j - pos r))" by blast
  let ?d = "ABC_at (j - pos r)"
  have "ABC_at ((j - pos r) mod 26 + pos r) = ABC_at j"
    by (rule ABC_at_cong) (simp add: mod_add_left_eq)
  also have "\<dots> = mapping r ! nat i" by (rule ABC_at_index [OF j])
  finally have x: "ABC_at ((j - pos r) mod 26 + pos r) = mapping r ! nat i" .
  have "index_str (mapping r) (mapping r ! nat i) = Inr (int (nat i))"
    using m ir by (intro index_str_nth) (simp_all add: perm_ABC_def perm_ABC_length [OF m])
  then have "left2right r ?d = Inr (ABC_at i)"
    using ir by (simp add: left2right_def index_ABC_at x)
  with d ABC_at_index [OF i] ABC_at_mem show ?thesis by auto
qed

lemma right2left_left2right:
  assumes m: "perm_ABC (mapping r)" and c: "c \<in> set ABC"
  shows "\<exists>d. left2right r c = Inr d \<and> d \<in> set ABC \<and> right2left r d = Inr c"
proof -
  from c obtain i where i: "index_str ABC c = Inr i" using index_str_mem by blast
  from left2right_value [OF m i] obtain j
    where j: "index_str (mapping r) (ABC_at (i + pos r)) = Inr j"
      and d: "left2right r c = Inr (ABC_at j)" by blast
  from index_str_props [OF j] have jr: "0 \<le> j" "j < 26" and jx: "mapping r ! nat j = ABC_at (i + pos r)"
    by (simp_all add: perm_ABC_length [OF m])
  have g: "getitem (mapping r) (j mod 26 mod 26) = Inr (ABC_at (i + pos r))"
    using jr jx by (simp add: getitem_def perm_ABC_length [OF m])
  have "ABC_at ((i + pos r) mod 26 - pos r) = ABC_at i"
    by (rule ABC_at_cong) (simp add: mod_diff_left_eq)
  then have "right2left r (ABC_at j) = Inr (ABC_at i)"
    using g by (simp add: right2left_def index_ABC_at)
  with d ABC_at_index [OF i] ABC_at_mem show ?thesis by auto
qed

lemma map_result_total:
  assumes "\<And>x. x \<in> set xs \<Longrightarrow> f x = Inr (g x)"
  shows "map_result f xs = Inr (map g xs)"
  using assms by (induction xs) simp_all

lemma map_result_length: "map_result f xs = Inr ys \<Longrightarrow> length ys = length xs"
  by (induction xs arbitrary: ys) (auto split: sum.splits)

lemma shifted_eq:
  "c \<in> set ABC \<Longrightarrow> rbind (index_str ABC c) (\<lambda>i. Inr (ABC_at (i + k))) = Inr (shifted k c)"
  using index_str_mem [of c ABC] by (auto simp: shifted_def)

lemma shifted_inj: "inj_on (shifted k) (set ABC)"
proof (rule inj_onI)
  fix c d
  assume c: "c \<in> set ABC" and d: "d \<in> set ABC" and eq: "shifted k c = shifted k d"
  from c obtain i where i: "index_str ABC c = Inr i" using index_str_mem by blast
  from d obtain j where j: "index_str ABC d = Inr j" using index_str_mem by blast
  from eq i j have "ABC_at (i + k) = ABC_at (j + k)" by (simp add: shifted_def)
  then have "index_str ABC (ABC_at (i + k)) = index_str ABC (ABC_at (j + k))" by simp
  then have "(i + k) mod 26 = (j + k) mod 26" by (simp add: index_ABC_at)
  then have "(i + k - k) mod 26 = (j + k - k) mod 26" by (rule mod_diff_cong) simp
  then have "i mod 26 = j mod 26" by simp
  with index_ABC_range [OF i] index_ABC_range [OF j] have "i = j" by simp
  with ABC_at_index [OF i] ABC_at_index [OF j] show "c = d" by simp
qed

lemma shifted_image: "shifted k ` set ABC = set ABC"
proof (rule card_subset_eq)
  show "finite (set ABC)" by simp
  show "shifted k ` set ABC \<subseteq> set ABC" by (auto simp: shifted_def ABC_at_mem)
  show "card (shifted k ` set ABC) = card (set ABC)" by (rule card_image [OF shifted_inj])
qed

lemma perm_ABC_rotated:
  assumes "perm_ABC w" and "k < 26"
  shows "perm_ABC (drop k w @ take k w)"
proof -
  have "drop k w @ take k w = rotate k w"
    using assms by (simp add: rotate_drop_take perm_ABC_length)
  with assms show ?thesis by (simp add: perm_ABC_def)
qed

lemma remap_value:
  assumes "set (wiring r) \<subseteq> set ABC"
  shows "remap r = Inr (r\<lparr>mapping :=
           drop (nat ((pos r - ring r) mod 26)) (map (shifted (ring r)) (wiring r)) @
           take (nat ((pos r - ring r) mod 26)) (map (shifted (ring r)) (wiring r))\<rparr>)"
proof -
  have "map_result (\<lambda>c. rbind (index_str ABC c) (\<lambda>i. Inr (ABC_at (i + ring r)))) (wiring r)
        = Inr (map (shifted (ring r)) (wiring r))"
    using assms by (intro map_result_total shifted_eq) auto
  then show ?thesis by (simp add: remap_def Let_def)
qed

lemma remap_perm:
  assumes w: "perm_ABC (wiring r)"
  shows "\<exists>r'. remap r = Inr r' \<and> perm_ABC (mapping r') \<and> r' = r\<lparr>mapping := mapping r'\<rparr>"
proof -
  let ?w = "map (shifted (ring r)) (wiring r)"
  from w have sub: "set (wiring r) \<subseteq> set ABC" by (simp add: perm_ABC_def)
  have "distinct ?w"
    using w shifted_inj by (simp add: distinct_map perm_ABC_def)
  moreover have "set ?w = set ABC"
    using w shifted_image by (simp add: perm_ABC_def)
  ultimately have "perm_ABC ?w" by (simp add: perm_ABC_def)
  then have "perm_ABC (drop (nat ((pos r - ring r) mod 26)) ?w @ take (nat ((pos r - ring r) mod 26)) ?w)"
    by (rule perm_ABC_rotated) simp
  with remap_value [OF sub] show ?thesis by simp
qed

lemma map_result_Inr_all:
  "map_result f xs = Inr ys \<Longrightarrow> x \<in> set xs \<Longrightarrow> \<exists>y. f x = Inr y"
  by (induction xs arbitrary: ys) (auto split: sum.splits)

lemma remap_wiring_ABC:
  assumes "remap r = Inr r'"
  shows "set (wiring r) \<subseteq> set ABC"
proof
  fix c assume c: "c \<in> set (wiring r)"
  from assms obtain w where
    "map_result (\<lambda>c. rbind (index_str ABC c) (\<lambda>i. Inr (ABC_at (i + ring r)))) (wiring r) = Inr w"
    by (auto simp: remap_def rbind_eq_Inr)
  from map_result_Inr_all [OF this c] show "c \<in> set ABC"
    using index_str_notin [of c ABC] by (cases "c \<in> set ABC") auto
qed

lemma turn_remap:
  assumes len: "length (wiring r) = 26" and cons: "remap r = Inr r"
  shows "turn r = remap (r\<lparr>pos := (pos r + 1) mod 26\<rparr>)"
proof -
  let ?w = "map (shifted (ring r)) (wiring r)"
  let ?k = "nat ((pos r - ring r) mod 26)"
  let ?k' = "nat (((pos r + 1) mod 26 - ring r) mod 26)"
  have sub: "set (wiring r) \<subseteq> set ABC" by (rule remap_wiring_ABC [OF cons])
  have lw: "length ?w = 26" using len by simp
  have k: "?k < 26" by simp
  from remap_value [OF sub] have "(Inr r :: error + irotor) = Inr (r\<lparr>mapping := drop ?k ?w @ take ?k ?w\<rparr>)"
    unfolding cons .
  then have "r = r\<lparr>mapping := drop ?k ?w @ take ?k ?w\<rparr>" by (simp only: sum.inject)
  from arg_cong [OF this, of mapping] have "mapping r = drop ?k ?w @ take ?k ?w" by simp
  then have m: "mapping r = rotate ?k ?w"
    using lw by (simp add: rotate_drop_take)
  then have "mapping r \<noteq> []" using lw by auto
  then obtain x xs where xs: "mapping r = x # xs" by (cases "mapping r") auto
  then have "xs @ [x] = rotate1 (mapping r)" by simp
  also have "\<dots> = rotate (Suc ?k) ?w" using m by simp
  also have "\<dots> = rotate (Suc ?k mod 26) ?w" using lw by (metis rotate_conv_mod)
  also have "Suc ?k mod 26 = ?k'"
  proof -
    have "int (Suc ?k mod 26) = ((pos r - ring r) mod 26 + 1) mod 26"
      by (simp add: zmod_int add.commute)
    also have "\<dots> = (pos r - ring r + 1) mod 26"
      by (simp add: mod_add_left_eq)
    also have "pos r - ring r + 1 = pos r + 1 - ring r" by simp
    also have "(pos r + 1 - ring r) mod 26 = ((pos r + 1) mod 26 - ring r) mod 26"
      by (simp add: mod_diff_left_eq)
    finally have "int (Suc ?k mod 26) = ((pos r + 1) mod 26 - ring r) mod 26" .
    then have "nat (int (Suc ?k mod 26)) = ?k'" by (simp only:)
    then show ?thesis by (simp only: nat_int)
  qed
  finally have t: "xs @ [x] = drop ?k' ?w @ take ?k' ?w"
    using lw by (simp add: rotate_drop_take)
  have "remap (r\<lparr>pos := (pos r + 1) mod 26\<rparr>)
        = Inr (r\<lparr>pos := (pos r + 1) mod 26, mapping := drop ?k' ?w @ take ?k' ?w\<rparr>)"
    using remap_value [of "r\<lparr>pos := (pos r + 1) mod 26\<rparr>"] sub by simp
  with xs t show ?thesis by (simp add: turn_def)
qed

section \<open>Rotors: the two directions, the cached mapping\<close>

lemma ROTORLIST_perm: "b \<in> fst ` set ROTORLIST \<Longrightarrow> perm_ABC (wiring b)"
proof -
  have "list_all (\<lambda>b. perm_ABC (wiring b)) (map fst ROTORLIST)" by code_simp
  then show "b \<in> fst ` set ROTORLIST \<Longrightarrow> perm_ABC (wiring b)"
    by (auto simp: list_all_iff)
qed

text \<open>
  Claim C5. On a rotor with a wiring of 26 letters whose cached mapping is the one
  \<^verbatim>\<open>remap\<close> computes, \<^verbatim>\<open>turn()\<close> gives the same rotor (position and mapping) as setting
  the position to \<^verbatim>\<open>(pos + 1) % 26\<close> and calling \<^verbatim>\<open>remap()\<close>.
\<close>

theorem turn_equals_remap:
  assumes "length (wiring r) = 26" and "remap r = Inr r"
  shows "turn r = remap (r\<lparr>pos := (pos r + 1) mod 26\<rparr>)"
  using assms by (rule turn_remap)

theorem turn_equals_remap_witness:
  "length (wiring (projr (InternalRotor III ''Z''))) = 26
   \<and> remap (projr (InternalRotor III ''Z'')) = Inr (projr (InternalRotor III ''Z''))
   \<and> turn (projr (InternalRotor III ''Z''))
       = remap ((projr (InternalRotor III ''Z''))\<lparr>pos := (pos (projr (InternalRotor III ''Z'')) + 1) mod 26\<rparr>)
   \<and> pos (projr (InternalRotor III ''Z'')) = 25"
proof -
  let ?r = "projr (InternalRotor III ''Z'')"
  have 1: "length (wiring ?r) = 26" by code_simp
  have 2: "remap ?r = Inr ?r" by code_simp
  have 3: "pos ?r = 25" by code_simp
  from turn_equals_remap [OF 1 2] 1 2 3 show ?thesis by (intro conjI)
qed

section \<open>Reflectors\<close>

lemma ABC_isalpha: "c \<in> set ABC \<Longrightarrow> isalpha_chr c"
  by (auto simp: ABC_def isalpha_chr_def)

lemma ABC_upper_chr: "c \<in> set ABC \<Longrightarrow> upper_chr c = [c]"
  by (auto simp: ABC_def upper_chr_def)

lemma upper_ABC: "set s \<subseteq> set ABC \<Longrightarrow> upper s = s"
  by (induction s) (simp_all add: upper_def ABC_upper_chr)

lemma isalpha_ABC: "set s \<subseteq> set ABC \<Longrightarrow> s \<noteq> [] \<Longrightarrow> isalpha s"
  by (auto simp: isalpha_def list_all_iff ABC_isalpha)

lemma ABC_index_A: "ABC_index (upper ''A'') = Inr 0"
  by (simp add: ABC_index_def upper_def upper_chr_def ABC_def)

lemma Rotor_perm:
  assumes "perm_ABC w"
  shows "Rotor w None ''A'' = Inr \<lparr>wiring = w, ring = 0, notch = None\<rparr>"
proof -
  have l: "length w = 26" by (rule perm_ABC_length [OF assms])
  have s: "set w \<subseteq> set ABC" using assms by (simp add: perm_ABC_def)
  have a: "isalpha w" using s l by (intro isalpha_ABC) auto
  have "distinct w" using assms by (simp add: perm_ABC_def)
  from distinct_card [OF this] l have c: "card (set w) = 26" by simp
  have A: "isalpha ''A''" by (simp add: isalpha_def isalpha_chr_def)
  show ?thesis using l a c A by (simp add: Rotor_def ABC_index_A upper_ABC [OF s])
qed

lemma reflector_loop_value:
  assumes w: "perm_ABC w" and ps: "set ps \<subseteq> set (enumerate 0 ABC)"
  shows "reflector_loop w ps =
           (if \<forall>(i, c) \<in> set ps. w ! i = ABC ! nat (projr (index_str w c))
            then None else Some RotorError)"
  using ps
proof (induction ps)
  case Nil
  then show ?case by simp
next
  case (Cons p ps)
  obtain i c where p: "p = (i, c)" by (cases p)
  with Cons.prems have "(i, c) \<in> set (enumerate 0 ABC)" by simp
  then have i: "i < 26" and c: "c \<in> set ABC"
    by (auto simp: in_set_enumerate_eq length_ABC)
  have lw: "length w = 26" by (rule perm_ABC_length [OF w])
  from c w have "c \<in> set w" by (simp only: perm_ABC_def)
  then obtain j where j: "index_str w c = Inr j" using index_str_mem by blast
  from index_str_props [OF j] lw have jr: "0 \<le> j" "j < 26" by simp_all
  have g1: "getitem w (int i) = Inr (w ! i)" using i lw by (simp add: getitem_def)
  have g2: "getitem ABC j = Inr (ABC ! nat j)" using jr by (simp add: getitem_def length_ABC)
  have "reflector_loop w ps =
           (if \<forall>(i, c) \<in> set ps. w ! i = ABC ! nat (projr (index_str w c))
            then None else Some RotorError)"
    using Cons.prems by (intro Cons.IH) simp
  with p j g1 g2 show ?case by simp
qed

lemma self_inverse_pointwise:
  assumes w: "perm_ABC w" and i: "i < 26"
  shows "w ! i = ABC ! nat (projr (index_str w (ABC ! i)))
         \<longleftrightarrow> rbind (wired w (ABC ! i)) (wired w) = Inr (ABC ! i)"
proof -
  have lw: "length w = 26" by (rule perm_ABC_length [OF w])
  have dw: "distinct w" using w by (simp add: perm_ABC_def)
  have "ABC ! i \<in> set w" using w i by (simp add: perm_ABC_def length_ABC)
  then obtain j where j: "index_str w (ABC ! i) = Inr j" using index_str_mem by blast
  from index_str_props [OF j] lw have jr: "0 \<le> j" "j < 26" and wj: "w ! nat j = ABC ! i"
    by simp_all
  have "w ! i \<in> set w" using i lw by simp
  then have "w ! i \<in> set ABC" using w by (simp only: perm_ABC_def)
  then obtain k where k: "index_str ABC (w ! i) = Inr k" using index_str_mem by blast
  from index_str_props [OF k] have kr: "0 \<le> k" "k < 26" and ak: "ABC ! nat k = w ! i"
    by (simp_all add: length_ABC)
  have i1: "index_str ABC (ABC ! i) = Inr (int i)"
    using index_str_nth [OF distinct_ABC, of i] i by (simp add: length_ABC)
  have v: "rbind (wired w (ABC ! i)) (wired w) = Inr (w ! nat k)"
    using i i1 k kr lw by (simp add: wired_def getitem_def)
  have "w ! i = ABC ! nat j \<longleftrightarrow> nat k = nat j"
    using ak [symmetric] distinct_ABC jr kr
    by (simp add: nth_eq_iff_index_eq length_ABC)
  also have "\<dots> \<longleftrightarrow> w ! nat k = ABC ! i"
    using wj [symmetric] dw jr kr lw by (simp add: nth_eq_iff_index_eq)
  finally show ?thesis using j v by simp
qed

lemma reflector_loop_self_inverse:
  assumes w: "perm_ABC w"
  shows "reflector_loop w (enumerate 0 ABC) = (if self_inverse w then None else Some RotorError)"
proof -
  have "(\<forall>(i, c) \<in> set (enumerate 0 ABC). w ! i = ABC ! nat (projr (index_str w c)))
        \<longleftrightarrow> (\<forall>i < 26. w ! i = ABC ! nat (projr (index_str w (ABC ! i))))"
    by (auto simp: in_set_enumerate_eq length_ABC)
  also have "\<dots> \<longleftrightarrow> (\<forall>i < 26. rbind (wired w (ABC ! i)) (wired w) = Inr (ABC ! i))"
    using self_inverse_pointwise [OF w] by simp
  also have "\<dots> \<longleftrightarrow> self_inverse w"
    by (simp add: self_inverse_def list_all_iff all_set_conv_all_nth length_ABC)
  finally show ?thesis using reflector_loop_value [OF w subset_refl] by simp
qed

lemma Reflector_value:
  assumes "perm_ABC w"
  shows "Reflector w =
           (if self_inverse w then Inr \<lparr>wiring = w, ring = 0, notch = None\<rparr>
            else Inl RotorError)"
proof -
  have "set w \<subseteq> set ABC" using assms by (simp add: perm_ABC_def)
  then show ?thesis
    by (simp add: Reflector_def Rotor_perm [OF assms] upper_ABC
        reflector_loop_self_inverse [OF assms])
qed

text \<open>
  Claim C7, as amended. A reflector built from a permutation of the 26 upper-case
  letters is accepted exactly when the wiring is its own inverse, \<^verbatim>\<open>w[w[c]] == c\<close> for
  every letter; otherwise the constructor raises RotorError. A letter wired to itself
  is not looked for.
\<close>

theorem reflector_accepts_self_inverse:
  assumes "perm_ABC w"
  shows "Reflector w =
           (if self_inverse w then Inr \<lparr>wiring = w, ring = 0, notch = None\<rparr>
            else Inl RotorError)"
  using assms by (rule Reflector_value)

theorem reflector_accepts_self_inverse_witness:
  "perm_ABC ''YRUHQSLDPXNGOKMIEBFZCWVJAT'' \<and> self_inverse ''YRUHQSLDPXNGOKMIEBFZCWVJAT''
   \<and> Reflector ''YRUHQSLDPXNGOKMIEBFZCWVJAT''
       = Inr \<lparr>wiring = ''YRUHQSLDPXNGOKMIEBFZCWVJAT'', ring = 0, notch = None\<rparr>
   \<and> perm_ABC ''BCADEFGHIJKLMNOPQRSTUVWXYZ'' \<and> \<not> self_inverse ''BCADEFGHIJKLMNOPQRSTUVWXYZ''
   \<and> Reflector ''BCADEFGHIJKLMNOPQRSTUVWXYZ'' = Inl RotorError"
proof -
  have 1: "perm_ABC ''YRUHQSLDPXNGOKMIEBFZCWVJAT''" by code_simp
  have 2: "self_inverse ''YRUHQSLDPXNGOKMIEBFZCWVJAT''" by code_simp
  have 3: "perm_ABC ''BCADEFGHIJKLMNOPQRSTUVWXYZ''" by code_simp
  have 4: "\<not> self_inverse ''BCADEFGHIJKLMNOPQRSTUVWXYZ''" by code_simp
  from reflector_accepts_self_inverse [OF 1] 2
  have 5: "Reflector ''YRUHQSLDPXNGOKMIEBFZCWVJAT''
       = Inr \<lparr>wiring = ''YRUHQSLDPXNGOKMIEBFZCWVJAT'', ring = 0, notch = None\<rparr>"
    by (simp only: if_True)
  from reflector_accepts_self_inverse [OF 3] 4
  have 6: "Reflector ''BCADEFGHIJKLMNOPQRSTUVWXYZ'' = Inl RotorError"
    by (simp only: if_False)
  from 1 2 5 3 4 6 show ?thesis by (intro conjI)
qed

section \<open>The machine on particular inputs\<close>

text \<open>
  Claim C2. The four-rotor machine with rotors BETA, V, VI, VIII, the thin reflector C,
  ring settings \<^verbatim>\<open>EPEL\<close>, the ten plugboard pairs and positions \<^verbatim>\<open>NAEM\<close> encodes
  \<^verbatim>\<open>QEOB\<close> as \<^verbatim>\<open>CDSZ\<close>.
\<close>

theorem m4_known_vector:
  "rbind (Enigma [BETA, V, VI, VIII] UKWC_THIN ''EPEL''
            [''AE'', ''BF'', ''CM'', ''DQ'', ''HU'', ''JN'', ''LX'', ''PR'', ''SZ'', ''VW'']
            True ''NAEM'')
     (\<lambda>m4. rbind (encode m4 ''QEOB'' None) (\<lambda>(c, e). Inr c)) = Inr ''CDSZ''"
  by code_simp

text \<open>
  Claim C3. With rotors I, II, III, reflector B and rings \<^verbatim>\<open>AAA\<close>, encoding
  \<^verbatim>\<open>HELLO\<close> from \<^verbatim>\<open>AAT\<close> leaves the positions \<^verbatim>\<open>ABY\<close>; from \<^verbatim>\<open>ADT\<close> it leaves
  \<^verbatim>\<open>BFY\<close> with the double step and \<^verbatim>\<open>AEY\<close> without it.
\<close>

theorem doublestep_positions:
  "rbind (Enigma [I, II, III] UKWB ''AAA'' [] True [])
     (\<lambda>e. rbind (encode e ''HELLO'' (Some ''AAT'')) (\<lambda>(c, e'). grundstellung e')) = Inr ''ABY''
   \<and> rbind (Enigma [I, II, III] UKWB ''AAA'' [] True [])
     (\<lambda>e. rbind (encode e ''HELLO'' (Some ''ADT'')) (\<lambda>(c, e'). grundstellung e')) = Inr ''BFY''
   \<and> rbind (Enigma [I, II, III] UKWB ''AAA'' [] False [])
     (\<lambda>e. rbind (encode e ''HELLO'' (Some ''ADT'')) (\<lambda>(c, e'). grundstellung e')) = Inr ''AEY''"
  by code_simp

text \<open>
  Claim C10. The constructor accepts the rotors BETA, I, II, GAMMA with the thin
  reflector B: only the leftmost rotor is tested. The rightmost rotor has no notches,
  and encoding one letter raises TypeError in the stepping.
\<close>

theorem notchless_rotor_raises:
  "map_sum id (\<lambda>e. map_sum id fst (encode e ''A'' None))
     (Enigma [BETA, I, II, GAMMA] UKWB_THIN [] [] True []) = Inr (Inl TypeError)"
  by code_simp

text \<open>
  Claim C8. The pairs \<^verbatim>\<open>Ab\<close> and \<^verbatim>\<open>aC\<close> are accepted: the letters are counted before
  they are upper-cased. The stored mapping sends B to A, but A to C.
\<close>

theorem plugboard_case_slip:
  "map_sum id
     (\<lambda>e. case plugboard_set e [''Ab'', ''aC''] of
             (err, e') \<Rightarrow> (err, map (m_plugboard e') ''ABC''))
     (Enigma [I, II, III] UKWB [] [] True [])
   = Inr (None, [Some CHR ''C'', Some CHR ''A'', Some CHR ''A''])"
  by code_simp

text \<open>
  Claim C9. The ring setting \<^verbatim>\<open>B\<close>, U+00E9, \<^verbatim>\<open>A\<close> passes \<^verbatim>\<open>isalpha\<close> and the length test;
  the loop sets the first rotor's ring to B, then raises ValueError on the second
  letter. The machine is left with rings \<^verbatim>\<open>BAA\<close>. The position setter does the same.
\<close>

theorem ringstellung_partial_update:
  "map_sum id
     (\<lambda>e. case ringstellung_set e [CHR ''B'', CHR 0xE9, CHR ''A''] of
             (err, e') \<Rightarrow> (err, ringstellung e, ringstellung e'))
     (Enigma [I, II, III] UKWB [] [] True [])
   = Inr (Some ValueError, Inr ''AAA'', Inr ''BAA'')
   \<and> map_sum id
     (\<lambda>e. case grundstellung_set e [CHR ''B'', CHR 0xE9, CHR ''A''] of
             (err, e') \<Rightarrow> (err, grundstellung e, grundstellung e'))
     (Enigma [I, II, III] UKWB [] [] True [])
   = Inr (Some ValueError, Inr ''AAA'', Inr ''BAA'')"
  by code_simp

text \<open>
  The identity wiring is a reflector the constructor accepts, and it reflects A to A:
  claim C7 as stated fails.
\<close>

theorem reflector_fixed_point_accepted:
  "Reflector ''ABCDEFGHIJKLMNOPQRSTUVWXYZ''
     = Inr \<lparr>wiring = ''ABCDEFGHIJKLMNOPQRSTUVWXYZ'', ring = 0, notch = None\<rparr>
   \<and> rbind (InternalReflector \<lparr>wiring = ''ABCDEFGHIJKLMNOPQRSTUVWXYZ'', ring = 0, notch = None\<rparr>)
        (\<lambda>r. reflect r CHR ''A'') = Inr CHR ''A''"
  by code_simp

text \<open>
  The empty message holds no character that is not a letter, and \<^verbatim>\<open>encode\<close> raises
  EnigmaError on it: claim C6 as stated fails.
\<close>

theorem empty_message_raises:
  "map_sum id (\<lambda>e. map_sum id fst (encode e [] None))
     (Enigma [I, II, III] UKWB [] [] True []) = Inr (Inl EnigmaError)"
  by code_simp

text \<open>
  Encoding \<^verbatim>\<open>a\<close> twice from \<^verbatim>\<open>AAA\<close> returns \<^verbatim>\<open>A\<close>, not the message: claim C1 as
  stated fails.
\<close>

theorem lower_case_not_returned:
  "rbind (Enigma [I, II, III] UKWB [] [] True [])
     (\<lambda>e. rbind (encode e ''a'' (Some ''AAA''))
       (\<lambda>(c, e1). rbind (encode e1 c (Some ''AAA'')) (\<lambda>(m, e2). Inr m))) = Inr ''A''
   \<and> ''A'' \<noteq> ''a''"
  by code_simp

section \<open>Stepping\<close>

lemma frame_fields:
  "frame r' = frame r \<Longrightarrow>
     wiring r' = wiring r \<and> ring r' = ring r \<and> notch r' = notch r \<and> baserotor r' = baserotor r"
  by (cases r, cases r') (simp add: frame_def)

lemma frame_update:
  "frame r' = frame r \<Longrightarrow> r'\<lparr>pos := p, mapping := m\<rparr> = r\<lparr>pos := p, mapping := m\<rparr>"
  by (cases r, cases r') (simp add: frame_def)

lemma frame_nth:
  assumes "map frame rs' = map frame rs" and "i < length rs"
  shows "frame (rs' ! i) = frame (rs ! i)"
proof -
  from assms(1) have "length rs' = length rs" by (rule map_eq_imp_length_eq)
  with assms show ?thesis by (metis nth_map)
qed

lemma getitem_neg:
  assumes "0 < k" and "k \<le> length xs"
  shows "getitem xs (- int k) = Inr (xs ! (length xs - k))"
proof -
  have "nat (int (length xs) + - int k) = length xs - k" using assms by simp
  with assms show ?thesis by (simp add: getitem_def)
qed

lemma turn_ok:
  assumes "wf_rotor r"
  shows "\<exists>r'. turn r = Inr r' \<and> frame r' = frame r \<and> wf_rotor r'"
proof -
  from assms have m: "perm_ABC (mapping r)" by (simp add: wf_rotor_def)
  from perm_ABC_length [OF m] obtain x xs where xs: "mapping r = x # xs"
    by (cases "mapping r") auto
  have "xs @ [x] = rotate1 (mapping r)" using xs by simp
  with m have "perm_ABC (xs @ [x])" by (simp add: perm_ABC_def)
  with assms xs show ?thesis by (simp add: turn_def wf_rotor_def frame_def)
qed

lemma turn_at_ok:
  assumes ok: "list_all wf_rotor rs" and k: "0 < k" "k \<le> length rs"
  shows "\<exists>rs'. turn_at rs (- int k) = Inr rs' \<and> map frame rs' = map frame rs
               \<and> list_all wf_rotor rs'"
proof -
  let ?i = "length rs - k"
  from k have i: "?i < length rs" by simp
  with ok have "wf_rotor (rs ! ?i)" by (simp add: list_all_length)
  from turn_ok [OF this] obtain r' where r': "turn (rs ! ?i) = Inr r'"
    "frame r' = frame (rs ! ?i)" "wf_rotor r'" by blast
  have idx: "nat (int (length rs) + - int k) = ?i" using k by simp
  have t: "turn_at rs (- int k) = Inr (rs[?i := r'])"
    using k r'(1) idx by (simp add: turn_at_def getitem_neg)
  have f: "map frame (rs[?i := r']) = map frame rs"
    using r'(2) i by (simp add: map_update list_update_same_conv)
  have w: "list_all wf_rotor (rs[?i := r'])"
    using ok r'(3) by (auto simp: list_all_iff dest: set_update_subset_insert [THEN subsetD])
  from t f w show ?thesis by blast
qed

lemma rotors_ok_frame:
  assumes "rotors_ok rs" and "map frame rs' = map frame rs" and "list_all wf_rotor rs'"
  shows "rotors_ok rs'"
proof -
  from assms(2) have l: "length rs' = length rs" by (rule map_eq_imp_length_eq)
  from assms(1) have n: "length rs = 3 \<or> length rs = 4" by (simp add: rotors_ok_def)
  then have i: "length rs - 1 < length rs" "length rs - 2 < length rs" by auto
  have "notch (rs' ! (length rs - 1)) = notch (rs ! (length rs - 1))"
    using frame_fields [OF frame_nth [OF assms(2) i(1)]] by simp
  moreover have "notch (rs' ! (length rs - 2)) = notch (rs ! (length rs - 2))"
    using frame_fields [OF frame_nth [OF assms(2) i(2)]] by simp
  ultimately show ?thesis using assms(1,3) l by (simp add: rotors_ok_def)
qed

lemma in_notch_ok: "notch r \<noteq> None \<Longrightarrow> \<exists>b. in_notch r = Inr b"
  by (cases "notch r") (simp_all add: in_notch_def)

lemma step_ok:
  assumes ok: "rotors_ok rs"
  shows "\<exists>rs'. step ds rs = Inr rs' \<and> map frame rs' = map frame rs \<and> rotors_ok rs'"
proof -
  from ok have n: "length rs = 3 \<or> length rs = 4" and w: "list_all wf_rotor rs"
    and n1: "notch (rs ! (length rs - 1)) \<noteq> None"
    and n2: "notch (rs ! (length rs - 2)) \<noteq> None"
    by (simp_all add: rotors_ok_def)
  from n have g1: "getitem rs (- 1) = Inr (rs ! (length rs - 1))"
    using getitem_neg [of 1 rs] by auto
  from n have g2: "getitem rs (- 2) = Inr (rs ! (length rs - 2))"
    using getitem_neg [of 2 rs] by auto
  from in_notch_ok [OF n1] obtain b1 where b1: "in_notch (rs ! (length rs - 1)) = Inr b1" ..
  from in_notch_ok [OF n2] obtain b2 where b2: "in_notch (rs ! (length rs - 2)) = Inr b2" ..
  have T: "\<exists>rs'. turn_at xs (- int k) = Inr rs' \<and> map frame rs' = map frame rs
               \<and> list_all wf_rotor rs'"
    if "map frame xs = map frame rs" "list_all wf_rotor xs" "k = 1 \<or> k = 2 \<or> k = 3" for xs k
  proof -
    from that(1) have "length xs = length rs" by (rule map_eq_imp_length_eq)
    with n that(3) have "0 < k" "k \<le> length xs" by auto
    from turn_at_ok [OF that(2) this] that(1) show ?thesis by auto
  qed
  from T [of rs 1] w obtain a1 where a1: "turn_at rs (- 1) = Inr a1"
    "map frame a1 = map frame rs" "list_all wf_rotor a1" by auto
  from T [of rs 2] w obtain a2 where a2: "turn_at rs (- 2) = Inr a2"
    "map frame a2 = map frame rs" "list_all wf_rotor a2" by auto
  from T [of rs 3] w obtain a3 where a3: "turn_at rs (- 3) = Inr a3"
    "map frame a3 = map frame rs" "list_all wf_rotor a3" by auto
  from T [of a2 3] a2 obtain a23 where a23: "turn_at a2 (- 3) = Inr a23"
    "map frame a23 = map frame rs" "list_all wf_rotor a23" by auto
  from T [of a23 1] a23 obtain a231 where a231: "turn_at a23 (- 1) = Inr a231"
    "map frame a231 = map frame rs" "list_all wf_rotor a231" by auto
  from T [of a2 1] a2 obtain a21 where a21: "turn_at a2 (- 1) = Inr a21"
    "map frame a21 = map frame rs" "list_all wf_rotor a21" by auto
  from T [of a3 2] a3 obtain a32 where a32: "turn_at a3 (- 2) = Inr a32"
    "map frame a32 = map frame rs" "list_all wf_rotor a32" by auto
  from T [of a32 1] a32 obtain a321 where a321: "turn_at a32 (- 1) = Inr a321"
    "map frame a321 = map frame rs" "list_all wf_rotor a321" by auto
  have "step ds rs = Inr a231 \<or> step ds rs = Inr a321 \<or> step ds rs = Inr a21
         \<or> step ds rs = Inr a1"
    using g1 g2 b1 b2 a1(1) a2(1) a3(1) a23(1) a231(1) a21(1) a32(1) a321(1)
    by (simp add: step_def)
  then have "\<exists>rs'. step ds rs = Inr rs' \<and> map frame rs' = map frame rs \<and> list_all wf_rotor rs'"
    using a1(2,3) a231(2,3) a21(2,3) a321(2,3) by blast
  then show ?thesis using rotors_ok_frame [OF ok] by blast
qed

section \<open>The path of one character\<close>

lemma right2left_total:
  assumes "perm_ABC (mapping r)" and "x \<in> set ABC"
  shows "\<exists>y. right2left r x = Inr y \<and> y \<in> set ABC"
  using left2right_right2left [OF assms] by blast

lemma left2right_total:
  assumes "perm_ABC (mapping r)" and "x \<in> set ABC"
  shows "\<exists>y. left2right r x = Inr y \<and> y \<in> set ABC"
  using right2left_left2right [OF assms] by blast

lemma right2left_inverse:
  assumes "perm_ABC (mapping r)" and "x \<in> set ABC" and "right2left r x = Inr y"
  shows "left2right r y = Inr x"
  using left2right_right2left [OF assms(1,2)] assms(3) by auto

lemma left2right_inverse:
  assumes "perm_ABC (mapping r)" and "x \<in> set ABC" and "left2right r x = Inr y"
  shows "right2left r y = Inr x"
  using right2left_left2right [OF assms(1,2)] assms(3) by auto

lemma fold_result_append:
  "fold_result f (xs @ ys) s = rbind (fold_result f xs s) (fold_result f ys)"
  by (induction xs arbitrary: s) (simp_all split: sum.splits)

text \<open>Through all rotors from right to left, and back.\<close>

lemma rotors_forth_back:
  assumes "list_all wf_rotor rs" and "x \<in> set ABC"
  shows "\<exists>y. fold_result right2left (rev rs) x = Inr y \<and> y \<in> set ABC
             \<and> fold_result left2right rs y = Inr x"
  using assms
proof (induction rs arbitrary: x rule: rev_induct)
  case Nil
  then show ?case by simp
next
  case (snoc r rs)
  then have "wf_rotor r" and rs: "list_all wf_rotor rs" by simp_all
  then have m: "perm_ABC (mapping r)" by (simp add: wf_rotor_def)
  from right2left_total [OF m snoc.prems(2)] obtain z
    where z: "right2left r x = Inr z" "z \<in> set ABC" by blast
  from snoc.IH [OF rs z(2)] obtain y
    where y: "fold_result right2left (rev rs) z = Inr y" "y \<in> set ABC"
      "fold_result left2right rs y = Inr z" by blast
  from right2left_inverse [OF m snoc.prems(2) z(1)] have "left2right r z = Inr x" .
  with z y show ?case by (simp add: fold_result_append)
qed

lemma rotors_back_forth:
  assumes "list_all wf_rotor rs" and "y \<in> set ABC"
  shows "\<exists>x. fold_result left2right rs y = Inr x \<and> x \<in> set ABC
             \<and> fold_result right2left (rev rs) x = Inr y"
  using assms
proof (induction rs arbitrary: y)
  case Nil
  then show ?case by simp
next
  case (Cons r rs)
  then have "wf_rotor r" and rs: "list_all wf_rotor rs" by simp_all
  then have m: "perm_ABC (mapping r)" by (simp add: wf_rotor_def)
  from left2right_total [OF m Cons.prems(2)] obtain z
    where z: "left2right r y = Inr z" "z \<in> set ABC" by blast
  from Cons.IH [OF rs z(2)] obtain x
    where x: "fold_result left2right rs z = Inr x" "x \<in> set ABC"
      "fold_result right2left (rev rs) x = Inr z" by blast
  from left2right_inverse [OF m Cons.prems(2) z(1)] have "right2left r z = Inr y" .
  with z x show ?case by (simp add: fold_result_append)
qed

lemma reflect_value:
  assumes w: "perm_ABC (wiring rf)" and c: "c \<in> set ABC"
  shows "reflect rf c = wired (wiring rf) c"
  using c by (simp add: reflect_def wired_def upper_def ABC_upper_chr ABC_index_def)

lemma wired_mem:
  assumes w: "perm_ABC w" and c: "c \<in> set ABC"
  shows "\<exists>d. wired w c = Inr d \<and> d \<in> set ABC"
proof -
  from c obtain i where i: "index_str ABC c = Inr i" using index_str_mem by blast
  from index_ABC_range [OF i] have r: "0 \<le> i" "i < 26" by simp_all
  then have "w ! nat i \<in> set w" by (simp add: perm_ABC_length [OF w])
  then have "w ! nat i \<in> set ABC" using w by (simp only: perm_ABC_def)
  with i r show ?thesis by (simp add: wired_def getitem_def perm_ABC_length [OF w])
qed

lemma reflect_involution:
  assumes w: "perm_ABC (wiring rf)" and s: "self_inverse (wiring rf)" and c: "c \<in> set ABC"
  shows "\<exists>d. reflect rf c = Inr d \<and> d \<in> set ABC \<and> reflect rf d = Inr c"
proof -
  from wired_mem [OF w c] obtain d where d: "wired (wiring rf) c = Inr d" "d \<in> set ABC"
    by blast
  from s c have "rbind (wired (wiring rf) c) (wired (wiring rf)) = Inr c"
    by (simp add: self_inverse_def list_all_iff)
  with d have "wired (wiring rf) d = Inr c" by simp
  then have "reflect rf d = Inr c" using reflect_value [OF w d(2)] by simp
  moreover have "reflect rf c = Inr d" using reflect_value [OF w c] d(1) by simp
  ultimately show ?thesis using d(2) by blast
qed

lemma signal_involution:
  assumes v: "valid_machine e" and c: "c \<in> set ABC"
  shows "\<exists>d. signal e c = Inr d \<and> d \<in> set ABC \<and> signal e d = Inr c"
proof -
  let ?p = "plug_get (m_plugboard e)"
  from v have rs: "list_all wf_rotor (m_rotors e)"
    and w: "perm_ABC (wiring (m_reflector e))" and s: "self_inverse (wiring (m_reflector e))"
    and pl: "\<And>x. x \<in> set ABC \<Longrightarrow> ?p x \<in> set ABC \<and> ?p (?p x) = x"
    by (simp_all add: valid_machine_def rotors_ok_def list_all_iff)
  from pl [OF c] have p0: "?p c \<in> set ABC" "?p (?p c) = c" by simp_all
  from rotors_forth_back [OF rs p0(1)] obtain c1
    where c1: "fold_result right2left (rev (m_rotors e)) (?p c) = Inr c1" "c1 \<in> set ABC"
      "fold_result left2right (m_rotors e) c1 = Inr (?p c)" by blast
  from reflect_involution [OF w s c1(2)] obtain c2
    where c2: "reflect (m_reflector e) c1 = Inr c2" "c2 \<in> set ABC"
      "reflect (m_reflector e) c2 = Inr c1" by blast
  from rotors_back_forth [OF rs c2(2)] obtain c3
    where c3: "fold_result left2right (m_rotors e) c2 = Inr c3" "c3 \<in> set ABC"
      "fold_result right2left (rev (m_rotors e)) c3 = Inr c2" by blast
  from pl [OF c3(2)] have p3: "?p c3 \<in> set ABC" "?p (?p c3) = c3" by simp_all
  have "signal e c = Inr (?p c3)" using c1(1) c2(1) c3(1) by (simp add: signal_def)
  moreover have "signal e (?p c3) = Inr c"
    using p3(2) c3(3) c2(3) c1(3) p0(2) by (simp add: signal_def)
  ultimately show ?thesis using p3(1) by blast
qed

section \<open>The encoding loop and the position setter\<close>

lemma ascii_letters_table:
  "list_all (\<lambda>c. isalpha_chr c \<and> (case upper_chr c of [d] \<Rightarrow> d \<in> set ABC | _ \<Rightarrow> False))
     ascii_letters"
  by code_simp

lemma ascii_letter_upper:
  assumes "c \<in> set ascii_letters"
  shows "isalpha_chr c \<and> (\<exists>d. upper_chr c = [d] \<and> d \<in> set ABC)"
proof -
  from ascii_letters_table assms
  have "isalpha_chr c \<and> (case upper_chr c of [d] \<Rightarrow> d \<in> set ABC | _ \<Rightarrow> False)"
    by (simp add: list_all_iff)
  then show ?thesis by (auto split: list.splits)
qed

lemma upper_ascii:
  assumes "set s \<subseteq> set ascii_letters"
  shows "set (upper s) \<subseteq> set ABC \<and> length (upper s) = length s"
  using assms
proof (induction s)
  case Nil
  then show ?case by (simp add: upper_def)
next
  case (Cons c s)
  then have "c \<in> set ascii_letters" by simp
  from ascii_letter_upper [OF this] obtain d where "upper_chr c = [d]" "d \<in> set ABC" by blast
  moreover have "upper (c # s) = upper_chr c @ upper s" by (simp add: upper_def)
  ultimately show ?case using Cons by simp
qed

lemma isalpha_ascii: "set s \<subseteq> set ascii_letters \<Longrightarrow> s \<noteq> [] \<Longrightarrow> isalpha s"
  using ascii_letter_upper by (auto simp: isalpha_def list_all_iff)

lemma ABC_ascii: "set ABC \<subseteq> set ascii_letters"
  by (auto simp: ascii_letters_def)

lemma valid_machine_rotors:
  "valid_machine e \<Longrightarrow> rotors_ok rs \<Longrightarrow> valid_machine (e\<lparr>m_rotors := rs\<rparr>)"
  by (simp add: valid_machine_def)

lemma encode_loop_ok:
  assumes "valid_machine e" and "set cs \<subseteq> set ABC"
  shows "\<exists>out rs'. encode_loop e cs = Inr (out, e\<lparr>m_rotors := rs'\<rparr>)
           \<and> length out = length cs \<and> set out \<subseteq> set ABC
           \<and> map frame rs' = map frame (m_rotors e) \<and> rotors_ok rs'
           \<and> encode_loop e out = Inr (cs, e\<lparr>m_rotors := rs'\<rparr>)"
  using assms
proof (induction cs arbitrary: e)
  case Nil
  have "e\<lparr>m_rotors := m_rotors e\<rparr> = e" by simp
  moreover from Nil have "rotors_ok (m_rotors e)" by (simp add: valid_machine_def)
  ultimately show ?case by (intro exI [of _ "[]"] exI [of _ "m_rotors e"]) simp
next
  case (Cons c cs)
  from Cons.prems have ok: "rotors_ok (m_rotors e)" by (simp add: valid_machine_def)
  from step_ok [OF ok] obtain rs1 where rs1: "step (doublestep e) (m_rotors e) = Inr rs1"
    "map frame rs1 = map frame (m_rotors e)" "rotors_ok rs1" by blast
  let ?e1 = "e\<lparr>m_rotors := rs1\<rparr>"
  have v1: "valid_machine ?e1" by (rule valid_machine_rotors [OF Cons.prems(1) rs1(3)])
  from Cons.prems(2) have c: "c \<in> set ABC" and cs: "set cs \<subseteq> set ABC" by simp_all
  from signal_involution [OF v1 c] obtain d where d: "signal ?e1 c = Inr d" "d \<in> set ABC"
    "signal ?e1 d = Inr c" by blast
  from Cons.IH [OF v1 cs] obtain out rs' where
    l: "encode_loop ?e1 cs = Inr (out, ?e1\<lparr>m_rotors := rs'\<rparr>)"
    and o: "length out = length cs" "set out \<subseteq> set ABC"
    and f: "map frame rs' = map frame (m_rotors ?e1)" "rotors_ok rs'"
    and b: "encode_loop ?e1 out = Inr (cs, ?e1\<lparr>m_rotors := rs'\<rparr>)" by blast
  have e': "?e1\<lparr>m_rotors := rs'\<rparr> = e\<lparr>m_rotors := rs'\<rparr>" by simp
  have 1: "encode_loop e (c # cs) = Inr (d # out, e\<lparr>m_rotors := rs'\<rparr>)"
    using rs1(1) d(1) l e' by simp
  have 2: "encode_loop e (d # out) = Inr (c # cs, e\<lparr>m_rotors := rs'\<rparr>)"
    using rs1(1) d(3) b e' by simp
  have 3: "map frame rs' = map frame (m_rotors e)" using f(1) rs1(2) by simp
  from 1 2 3 o d(2) f(2) show ?case by auto
qed

lemma frame_set: "frame (r\<lparr>pos := i, mapping := m\<rparr>) = frame r"
  by (simp add: frame_def)

lemma remap_frame:
  assumes f: "frame r2 = frame r1" and w: "set (wiring r1) \<subseteq> set ABC"
  shows "remap (r2\<lparr>pos := i\<rparr>) = remap (r1\<lparr>pos := i\<rparr>)"
proof -
  let ?M = "drop (nat ((i - ring r1) mod 26)) (map (shifted (ring r1)) (wiring r1)) @
            take (nat ((i - ring r1) mod 26)) (map (shifted (ring r1)) (wiring r1))"
  note ff = frame_fields [OF f]
  from w ff have w2: "set (wiring r2) \<subseteq> set ABC" by simp
  have a: "remap (r1\<lparr>pos := i\<rparr>) = Inr (r1\<lparr>pos := i, mapping := ?M\<rparr>)"
    using remap_value [of "r1\<lparr>pos := i\<rparr>"] w by simp
  have b: "remap (r2\<lparr>pos := i\<rparr>) = Inr (r2\<lparr>pos := i, mapping := ?M\<rparr>)"
    using remap_value [of "r2\<lparr>pos := i\<rparr>"] w2 ff by simp
  show ?thesis by (simp only: a b frame_update [OF f])
qed

lemma remap_pos_ok:
  assumes "perm_ABC (wiring r)"
  shows "\<exists>r'. remap (r\<lparr>pos := i\<rparr>) = Inr r' \<and> frame r' = frame r \<and> wf_rotor r'"
proof -
  have "perm_ABC (wiring (r\<lparr>pos := i\<rparr>))" using assms by simp
  from remap_perm [OF this] obtain r' where r': "remap (r\<lparr>pos := i\<rparr>) = Inr r'"
    "perm_ABC (mapping r')" "r' = r\<lparr>pos := i\<rparr>\<lparr>mapping := mapping r'\<rparr>" by blast
  from arg_cong [OF r'(3), of frame] have "frame r' = frame r" by (simp only: frame_set)
  moreover from frame_fields [OF this] assms r'(2) have "wf_rotor r'"
    by (simp add: wf_rotor_def)
  ultimately show ?thesis using r'(1) by blast
qed

lemma grundstellung_loop_ok:
  assumes "list_all (\<lambda>r. perm_ABC (wiring r)) rs" and "set cs \<subseteq> set ABC"
    and "length cs = length rs"
  shows "\<exists>rs'. grundstellung_loop rs cs = (None, rs') \<and> map frame rs' = map frame rs
               \<and> list_all wf_rotor rs'"
  using assms
proof (induction rs arbitrary: cs)
  case Nil
  then show ?case by simp
next
  case (Cons r rs)
  from Cons.prems(3) obtain c cs' where cs: "cs = c # cs'" by (cases cs) auto
  with Cons.prems have c: "c \<in> set ABC" and cs': "set cs' \<subseteq> set ABC"
    "length cs' = length rs" and r: "perm_ABC (wiring r)"
    and rs: "list_all (\<lambda>r. perm_ABC (wiring r)) rs" by simp_all
  from c obtain i where i: "index_str ABC c = Inr i" using index_str_mem by blast
  from remap_pos_ok [OF r] obtain r' where r': "remap (r\<lparr>pos := i\<rparr>) = Inr r'"
    "frame r' = frame r" "wf_rotor r'" by blast
  from Cons.IH [OF rs cs'] obtain rs' where rs': "grundstellung_loop rs cs' = (None, rs')"
    "map frame rs' = map frame rs" "list_all wf_rotor rs'" by blast
  from cs i r' rs' show ?case by simp
qed

lemma grundstellung_loop_frame:
  assumes "map frame rs2 = map frame rs1" and "list_all (\<lambda>r. perm_ABC (wiring r)) rs1"
    and "set cs \<subseteq> set ABC" and "length cs = length rs1"
  shows "grundstellung_loop rs2 cs = grundstellung_loop rs1 cs"
  using assms
proof (induction rs1 arbitrary: rs2 cs)
  case Nil
  then show ?case by simp
next
  case (Cons r1 rs1)
  from Cons.prems(1) obtain r2 rs2' where rs2: "rs2 = r2 # rs2'" "frame r2 = frame r1"
    "map frame rs2' = map frame rs1" by (cases rs2) auto
  from Cons.prems(4) obtain c cs' where cs: "cs = c # cs'" by (cases cs) auto
  with Cons.prems have c: "c \<in> set ABC" and cs': "set cs' \<subseteq> set ABC"
    "length cs' = length rs1" and r: "perm_ABC (wiring r1)"
    and rs: "list_all (\<lambda>r. perm_ABC (wiring r)) rs1" by simp_all
  from c obtain i where i: "index_str ABC c = Inr i" using index_str_mem by blast
  from r have "set (wiring r1) \<subseteq> set ABC" by (simp add: perm_ABC_def)
  from remap_frame [OF rs2(2) this] have m: "remap (r2\<lparr>pos := i\<rparr>) = remap (r1\<lparr>pos := i\<rparr>)" .
  from remap_pos_ok [OF r] obtain r' where r': "remap (r1\<lparr>pos := i\<rparr>) = Inr r'" by blast
  from Cons.IH [OF rs2(3) rs cs'] have "grundstellung_loop rs2' cs' = grundstellung_loop rs1 cs'" .
  with rs2(1) cs i m r' show ?case by simp
qed

section \<open>Encoding a message\<close>

lemma rbind_no_EnigmaError:
  "m \<noteq> Inl EnigmaError \<Longrightarrow> (\<And>x. f x \<noteq> Inl EnigmaError) \<Longrightarrow> rbind m f \<noteq> Inl EnigmaError"
  by (cases m) simp_all

lemma index_str_no_EnigmaError: "index_str xs c \<noteq> Inl EnigmaError"
  by (induction xs) (auto split: sum.splits)

lemma getitem_no_EnigmaError: "getitem xs i \<noteq> Inl EnigmaError"
  by (simp add: getitem_def)

lemma right2left_no_EnigmaError: "right2left r c \<noteq> Inl EnigmaError"
  unfolding right2left_def
  by (intro rbind_no_EnigmaError index_str_no_EnigmaError getitem_no_EnigmaError) simp

lemma left2right_no_EnigmaError: "left2right r c \<noteq> Inl EnigmaError"
  unfolding left2right_def
  by (intro rbind_no_EnigmaError index_str_no_EnigmaError) simp

lemma reflect_no_EnigmaError: "reflect r c \<noteq> Inl EnigmaError"
  unfolding reflect_def ABC_index_def
  by (intro rbind_no_EnigmaError getitem_no_EnigmaError)
     (simp add: index_str_no_EnigmaError split: list.splits)

lemma fold_result_no_EnigmaError:
  "(\<And>x s. f x s \<noteq> Inl EnigmaError) \<Longrightarrow> fold_result f xs s \<noteq> Inl EnigmaError"
  by (induction xs arbitrary: s) (auto split: sum.splits)

lemma signal_no_EnigmaError: "signal e c \<noteq> Inl EnigmaError"
  unfolding signal_def
  by (intro rbind_no_EnigmaError fold_result_no_EnigmaError right2left_no_EnigmaError
      left2right_no_EnigmaError reflect_no_EnigmaError) simp

lemma turn_at_no_EnigmaError: "turn_at rs i \<noteq> Inl EnigmaError"
  unfolding turn_at_def
  by (intro rbind_no_EnigmaError getitem_no_EnigmaError)
     (simp_all add: turn_def split: list.splits)

lemma notch_at_no_EnigmaError: "rbind (getitem rs i) in_notch \<noteq> Inl EnigmaError"
  by (intro rbind_no_EnigmaError getitem_no_EnigmaError)
     (simp add: in_notch_def split: option.splits)

lemma step_no_EnigmaError: "step ds rs \<noteq> Inl EnigmaError"
  unfolding step_def
  by (intro rbind_no_EnigmaError) 
     (simp_all add: turn_at_no_EnigmaError notch_at_no_EnigmaError rbind_no_EnigmaError)

lemma encode_loop_no_EnigmaError: "encode_loop e cs \<noteq> Inl EnigmaError"
  by (induction cs arbitrary: e)
     (auto simp: step_no_EnigmaError signal_no_EnigmaError split: sum.splits)

lemma encode_EnigmaError: "encode e msg None = Inl EnigmaError \<longleftrightarrow> \<not> isalpha msg"
  by (simp add: encode_def encode_loop_no_EnigmaError)

lemma valid_machine_perm_wirings:
  "valid_machine e \<Longrightarrow> list_all (\<lambda>r. perm_ABC (wiring r)) (m_rotors e)"
  by (simp add: valid_machine_def rotors_ok_def list_all_iff wf_rotor_def)

lemma valid_machine_length:
  "valid_machine e \<Longrightarrow> length (m_rotors e) = 3 \<or> length (m_rotors e) = 4"
  by (simp add: valid_machine_def rotors_ok_def)

lemma grundstellung_set_ok:
  assumes v: "valid_machine e" and l: "length P = length (m_rotors e)"
    and P: "set P \<subseteq> set ascii_letters"
  shows "\<exists>rs'. grundstellung_set e P = (None, e\<lparr>m_rotors := rs'\<rparr>)
               \<and> grundstellung_loop (m_rotors e) (upper P) = (None, rs')
               \<and> map frame rs' = map frame (m_rotors e) \<and> rotors_ok rs'"
proof -
  from valid_machine_length [OF v] l have ne: "P \<noteq> []" by auto
  from upper_ascii [OF P] l have u: "set (upper P) \<subseteq> set ABC"
    "length (upper P) = length (m_rotors e)" by simp_all
  from grundstellung_loop_ok [OF valid_machine_perm_wirings [OF v] u] obtain rs'
    where rs': "grundstellung_loop (m_rotors e) (upper P) = (None, rs')"
      "map frame rs' = map frame (m_rotors e)" "list_all wf_rotor rs'" by blast
  from v have "rotors_ok (m_rotors e)" by (simp add: valid_machine_def)
  from rotors_ok_frame [OF this rs'(2,3)] have "rotors_ok rs'" .
  moreover have "grundstellung_set e P = (None, e\<lparr>m_rotors := rs'\<rparr>)"
    using isalpha_ascii [OF P ne] l rs'(1) by (simp add: grundstellung_set_def)
  ultimately show ?thesis using rs'(1,2) by blast
qed

lemma encode_None_ok:
  assumes v: "valid_machine e" and ne: "msg \<noteq> []" and m: "set msg \<subseteq> set ascii_letters"
  shows "\<exists>out e'. encode e msg None = Inr (out, e') \<and> length out = length msg
                 \<and> set out \<subseteq> set ABC"
proof -
  from upper_ascii [OF m] have u: "set (upper msg) \<subseteq> set ABC"
    "length (upper msg) = length msg" by simp_all
  from encode_loop_ok [OF v u(1)] obtain out rs' where
    "encode_loop e (upper msg) = Inr (out, e\<lparr>m_rotors := rs'\<rparr>)"
    "length out = length (upper msg)" "set out \<subseteq> set ABC" by blast
  with isalpha_ascii [OF m ne] u(2) show ?thesis by (simp add: encode_def)
qed

lemma encode_twice:
  assumes v: "valid_machine e" and l: "length P = length (m_rotors e)"
    and P: "set P \<subseteq> set ascii_letters"
    and ne: "msg \<noteq> []" and m: "set msg \<subseteq> set ascii_letters"
  shows "\<exists>c e1 e2. encode e msg (Some P) = Inr (c, e1) \<and> length c = length msg
           \<and> set c \<subseteq> set ABC \<and> encode e1 c (Some P) = Inr (upper msg, e2)"
proof -
  from valid_machine_length [OF v] l have Pne: "P \<noteq> []" by auto
  from upper_ascii [OF m] have u: "set (upper msg) \<subseteq> set ABC"
    "length (upper msg) = length msg" by simp_all
  from grundstellung_set_ok [OF v l P] obtain rs1
    where g: "grundstellung_set e P = (None, e\<lparr>m_rotors := rs1\<rparr>)"
      and gl: "grundstellung_loop (m_rotors e) (upper P) = (None, rs1)"
      and f1: "map frame rs1 = map frame (m_rotors e)" and ok1: "rotors_ok rs1" by blast
  let ?e1 = "e\<lparr>m_rotors := rs1\<rparr>"
  have v1: "valid_machine ?e1" by (rule valid_machine_rotors [OF v ok1])
  from encode_loop_ok [OF v1 u(1)] obtain out rs2 where
    lp: "encode_loop ?e1 (upper msg) = Inr (out, ?e1\<lparr>m_rotors := rs2\<rparr>)"
    and o: "length out = length (upper msg)" "set out \<subseteq> set ABC"
    and f2: "map frame rs2 = map frame (m_rotors ?e1)" and ok2: "rotors_ok rs2"
    and rev: "encode_loop ?e1 out = Inr (upper msg, ?e1\<lparr>m_rotors := rs2\<rparr>)" by blast
  let ?e2 = "e\<lparr>m_rotors := rs2\<rparr>"
  have e2: "?e1\<lparr>m_rotors := rs2\<rparr> = ?e2" by simp
  have first: "encode e msg (Some P) = Inr (out, ?e2)"
    using isalpha_ascii [OF m ne] Pne g lp e2 by (simp add: encode_def setter_then_def)
  have one: "out \<noteq> []" using o(1) u(2) ne by auto
  have ia: "isalpha out" using o(2) one by (rule isalpha_ABC)
  have uo: "upper out = out" by (rule upper_ABC [OF o(2)])
  have v2: "valid_machine ?e2" by (rule valid_machine_rotors [OF v ok2])
  have f21: "map frame rs2 = map frame (m_rotors e)" using f2 f1 by simp
  from upper_ascii [OF P] l have uP: "set (upper P) \<subseteq> set ABC"
    "length (upper P) = length (m_rotors e)" by simp_all
  from grundstellung_loop_frame [OF f21 valid_machine_perm_wirings [OF v] uP] gl
  have gl2: "grundstellung_loop rs2 (upper P) = (None, rs1)" by simp
  have l2: "length P = length rs2" using l f21 by (metis length_map)
  have g2: "grundstellung_set ?e2 P = (None, ?e1)"
    using isalpha_ascii [OF P Pne] l2 gl2 by (simp add: grundstellung_set_def)
  have second: "encode ?e2 out (Some P) = Inr (upper msg, ?e2)"
    using ia Pne g2 uo rev e2 by (simp add: encode_def setter_then_def)
  from first second o u(2) show ?thesis by auto
qed

section \<open>The machines the constructor builds\<close>

lemma perm_ABC_I:
  assumes "length w = 26" and "card (set w) = 26" and "set w \<subseteq> set ABC"
  shows "perm_ABC w"
proof -
  have "distinct w" using assms(1,2) by (simp add: card_distinct)
  moreover have "card (set ABC) = 26" using distinct_card [OF distinct_ABC] by (simp add: length_ABC)
  then have "set w = set ABC" using assms(2,3) by (intro card_subset_eq) simp_all
  ultimately show ?thesis by (simp add: perm_ABC_def)
qed

lemma Rotor_Inr:
  assumes "Rotor w n r = Inr x"
  shows "wiring x = upper w \<and> length w = 26 \<and> card (set w) = 26 \<and> (n \<noteq> None \<longrightarrow> notch x \<noteq> None)"
proof -
  from assms have c: "length w = 26" "\<not> card (set w) < 26"
    by (auto simp: Rotor_def split: if_splits)
  have "card (set w) \<le> length w" by (rule card_length)
  with c have "card (set w) = 26" by simp
  moreover from assms have "wiring x = upper w \<and> (n \<noteq> None \<longrightarrow> notch x \<noteq> None)"
    by (auto simp: Rotor_def rbind_eq_Inr split: if_splits option.splits)
  ultimately show ?thesis using c by simp
qed

lemma InternalRotor_Inr:
  assumes i: "InternalRotor b p = Inr r" and w: "set (wiring b) \<subseteq> set ABC"
  shows "wf_rotor r \<and> (notch b \<noteq> None \<longrightarrow> notch r \<noteq> None)"
proof -
  from i obtain notches rc x k where
    n: "(case notch b of None \<Rightarrow> Inr None
         | Some S \<Rightarrow> rbind (map_result (getitem ABC) (sorted_list_of_set S)) (\<lambda>s. Inr (Some s)))
        = Inr notches"
    and x: "Rotor (wiring b) notches [rc] = Inr x"
    and r: "remap \<lparr>wiring = wiring x, ring = ring x, notch = notch x,
                  baserotor = b, pos = k, mapping = []\<rparr> = Inr r"
    by (auto simp: InternalRotor_def rbind_eq_Inr split: if_splits)
  let ?r0 = "\<lparr>wiring = wiring x, ring = ring x, notch = notch x,
                  baserotor = b, pos = k, mapping = []\<rparr>"
  from Rotor_Inr [OF x] have wx: "wiring x = upper (wiring b)" and l: "length (wiring b) = 26"
    and c: "card (set (wiring b)) = 26" and nx: "notches \<noteq> None \<longrightarrow> notch x \<noteq> None" by simp_all
  from wx upper_ABC [OF w] have wx': "wiring x = wiring b" by simp
  have p: "perm_ABC (wiring ?r0)" using perm_ABC_I [OF l c w] wx' by simp
  from remap_perm [OF p] r have m: "perm_ABC (mapping r)" and e: "r = ?r0\<lparr>mapping := mapping r\<rparr>"
    by auto
  from arg_cong [OF e, of wiring] arg_cong [OF e, of notch]
  have f: "wiring r = wiring x" "notch r = notch x" by simp_all
  from n have "notch b \<noteq> None \<longrightarrow> notches \<noteq> None"
    by (auto simp: rbind_eq_Inr split: option.splits)
  with nx f p m show ?thesis by (simp add: wf_rotor_def)
qed

lemma map_result_list_all2:
  "map_result f xs = Inr ys \<Longrightarrow> list_all2 (\<lambda>x y. f x = Inr y) xs ys"
  by (induction xs arbitrary: ys) (auto split: sum.splits)

lemma InternalRotors_Inr:
  assumes m: "map_result (\<lambda>r. InternalRotor r ''A'') bs = Inr rs"
    and w: "\<forall>b \<in> set bs. set (wiring b) \<subseteq> set ABC"
  shows "length rs = length bs \<and> list_all wf_rotor rs
       \<and> (\<forall>i < length bs. notch (bs ! i) \<noteq> None \<longrightarrow> notch (rs ! i) \<noteq> None)"
proof -
  from map_result_list_all2 [OF m]
  have a: "list_all2 (\<lambda>b r. InternalRotor b ''A'' = Inr r) bs rs" .
  then have l: "length rs = length bs" by (simp add: list_all2_lengthD)
  have "wf_rotor (rs ! i) \<and> (notch (bs ! i) \<noteq> None \<longrightarrow> notch (rs ! i) \<noteq> None)"
    if "i < length bs" for i
  proof -
    from list_all2_nthD [OF a that] have "InternalRotor (bs ! i) ''A'' = Inr (rs ! i)" .
    moreover from w that have "set (wiring (bs ! i)) \<subseteq> set ABC" by simp
    ultimately show ?thesis by (rule InternalRotor_Inr)
  qed
  with l show ?thesis by (simp add: list_all_length)
qed

lemma remap_ring_ok:
  assumes "wf_rotor r" and "remap (r\<lparr>ring := i\<rparr>) = Inr r'"
  shows "wf_rotor r' \<and> notch r' = notch r"
proof -
  have p: "perm_ABC (wiring (r\<lparr>ring := i\<rparr>))" using assms(1) by (simp add: wf_rotor_def)
  from remap_perm [OF p] assms(2) have m: "perm_ABC (mapping r')"
    and e: "r' = r\<lparr>ring := i\<rparr>\<lparr>mapping := mapping r'\<rparr>" by auto
  from arg_cong [OF e, of wiring] arg_cong [OF e, of notch] assms(1) m
  show ?thesis by (simp add: wf_rotor_def)
qed

lemma remap_pos_wf:
  assumes "wf_rotor r" and "remap (r\<lparr>pos := i\<rparr>) = Inr r'"
  shows "wf_rotor r' \<and> notch r' = notch r"
proof -
  have p: "perm_ABC (wiring (r\<lparr>pos := i\<rparr>))" using assms(1) by (simp add: wf_rotor_def)
  from remap_perm [OF p] assms(2) have m: "perm_ABC (mapping r')"
    and e: "r' = r\<lparr>pos := i\<rparr>\<lparr>mapping := mapping r'\<rparr>" by auto
  from arg_cong [OF e, of wiring] arg_cong [OF e, of notch] assms(1) m
  show ?thesis by (simp add: wf_rotor_def)
qed

lemma ringstellung_loop_wf:
  assumes "ringstellung_loop rs cs = (None, rs')" and "list_all wf_rotor rs"
  shows "list_all wf_rotor rs' \<and> map notch rs' = map notch rs"
  using assms
proof (induction rs cs arbitrary: rs' rule: ringstellung_loop.induct)
  case (1 r rs c cs)
  from "1.prems"(1) obtain i r' rs1 where i: "index_str ABC c = Inr i"
    and r': "remap (r\<lparr>ring := i\<rparr>) = Inr r'"
    and rs1: "ringstellung_loop rs cs = (None, rs1)" and e: "rs' = r' # rs1"
    by (auto split: sum.splits prod.splits)
  from "1.prems"(2) have w: "wf_rotor r" "list_all wf_rotor rs" by simp_all
  from "1.IH" [OF i r' rs1 w(2)] remap_ring_ok [OF w(1) r'] e show ?case by simp
qed simp_all

lemma grundstellung_loop_wf:
  assumes "grundstellung_loop rs cs = (None, rs')" and "list_all wf_rotor rs"
  shows "list_all wf_rotor rs' \<and> map notch rs' = map notch rs"
  using assms
proof (induction rs cs arbitrary: rs' rule: grundstellung_loop.induct)
  case (1 r rs c cs)
  from "1.prems"(1) obtain i r' rs1 where i: "index_str ABC c = Inr i"
    and r': "remap (r\<lparr>pos := i\<rparr>) = Inr r'"
    and rs1: "grundstellung_loop rs cs = (None, rs1)" and e: "rs' = r' # rs1"
    by (auto split: sum.splits prod.splits)
  from "1.prems"(2) have w: "wf_rotor r" "list_all wf_rotor rs" by simp_all
  from "1.IH" [OF i r' rs1 w(2)] remap_pos_wf [OF w(1) r'] e show ?case by simp
qed simp_all

lemma upper_append: "upper (xs @ ys) = upper xs @ upper ys"
  by (simp add: upper_def)

lemma upper_pair:
  assumes "set [a, b] \<subseteq> set ascii_letters"
  shows "\<exists>x y. upper_chr a = [x] \<and> upper_chr b = [y] \<and> upper [a, b] = [x, y]
               \<and> x \<in> set ABC \<and> y \<in> set ABC"
proof -
  from assms have "a \<in> set ascii_letters" "b \<in> set ascii_letters" by simp_all
  from ascii_letter_upper [OF this(1)] ascii_letter_upper [OF this(2)]
  show ?thesis by (auto simp: upper_def)
qed

lemma plugboard_loop_ok:
  assumes "\<forall>p \<in> set ps. length p = 2" and "set (concat ps) \<subseteq> set ascii_letters"
    and "distinct (upper (concat ps))"
    and "\<forall>x y. m x = Some y \<longrightarrow> m y = Some x" and "dom m \<subseteq> set ABC"
    and "dom m \<inter> set (upper (concat ps)) = {}"
  shows "\<exists>m'. plugboard_loop m ps = (None, m') \<and> (\<forall>x y. m' x = Some y \<longrightarrow> m' y = Some x)
               \<and> dom m' \<subseteq> set ABC"
  using assms
proof (induction ps arbitrary: m)
  case Nil
  have "plugboard_loop m [] = (None, m)" by simp
  with Nil.prems(4,5) show ?case by blast
next
  case (Cons p ps)
  from Cons.prems(1) have "length p = 2" by simp
  then obtain a b where p: "p = [a, b]"
    by (cases p) (auto simp: length_Suc_conv)
  from Cons.prems(2) p have "set [a, b] \<subseteq> set ascii_letters" by simp
  from upper_pair [OF this] obtain x y where xy: "upper [a, b] = [x, y]"
    "x \<in> set ABC" "y \<in> set ABC" and xy': "upper_chr a = [x]" "upper_chr b = [y]" by blast
  have "upper (concat (p # ps)) = upper ([a, b] @ concat ps)" using p by simp
  also have "\<dots> = upper [a, b] @ upper (concat ps)" by (rule upper_append)
  finally have u: "upper (concat (p # ps)) = [x, y] @ upper (concat ps)"
    using xy(1) by simp
  from Cons.prems(3) u have d: "x \<noteq> y" "x \<notin> set (upper (concat ps))"
    "y \<notin> set (upper (concat ps))" "distinct (upper (concat ps))" by simp_all
  from Cons.prems(6) u have n: "x \<notin> dom m" "y \<notin> dom m"
    "dom m \<inter> set (upper (concat ps)) = {}" by auto
  have ab: "a \<noteq> b"
  proof
    assume "a = b"
    with xy' have "x = y" by simp
    with d(1) show False by simp
  qed
  let ?m = "m(x \<mapsto> y, y \<mapsto> x)"
  have s: "\<forall>u v. ?m u = Some v \<longrightarrow> ?m v = Some u"
  proof (intro allI impI)
    fix u v assume uv: "?m u = Some v"
    show "?m v = Some u"
    proof (cases "u = x \<or> u = y")
      case True
      with uv d(1) show ?thesis by auto
    next
      case False
      with uv have mu: "m u = Some v" by simp
      with Cons.prems(4) have mv: "m v = Some u" by blast
      then have "v \<in> dom m" by blast
      with n have "v \<noteq> x" "v \<noteq> y" by auto
      with mv show ?thesis by simp
    qed
  qed
  have dm: "dom ?m \<subseteq> set ABC" using Cons.prems(5) xy(2,3) by auto
  have di: "dom ?m \<inter> set (upper (concat ps)) = {}" using n(3) d(2,3) by auto
  from Cons.prems(1,2) have r: "\<forall>p \<in> set ps. length p = 2"
    "set (concat ps) \<subseteq> set ascii_letters" by simp_all
  from Cons.IH [OF r d(4) s dm di] obtain m' where
    m': "plugboard_loop ?m ps = (None, m')" "\<forall>x y. m' x = Some y \<longrightarrow> m' y = Some x"
    "dom m' \<subseteq> set ABC" by blast
  have "plugboard_loop m (p # ps) = plugboard_loop ?m ps"
    using p ab xy(1) by simp
  with m'(1) have "plugboard_loop m (p # ps) = (None, m')" by simp
  with m'(2,3) show ?case by blast
qed

lemma plug_get_involution:
  assumes s: "\<forall>x y. m x = Some y \<longrightarrow> m y = Some x" and d: "dom m \<subseteq> set ABC"
  shows "list_all (\<lambda>c. plug_get m c \<in> set ABC \<and> plug_get m (plug_get m c) = c) ABC"
proof -
  have "plug_get m c \<in> set ABC \<and> plug_get m (plug_get m c) = c" if c: "c \<in> set ABC" for c
  proof (cases "m c")
    case None
    with c show ?thesis by (simp add: plug_get_def)
  next
    case (Some x)
    with s have "m x = Some c" by blast
    moreover from this d have "x \<in> set ABC" by blast
    ultimately show ?thesis using Some by (simp add: plug_get_def)
  qed
  then show ?thesis by (simp add: list_all_iff)
qed

lemma plugboard_set_valid:
  assumes p: "plugboard_set e pb = (None, e')"
    and a: "set (concat pb) \<subseteq> set ascii_letters" and d: "distinct (upper (concat pb))"
  shows "m_rotors e' = m_rotors e \<and> m_reflector e' = m_reflector e
       \<and> list_all (\<lambda>c. plug_get (m_plugboard e') c \<in> set ABC \<and>
                      plug_get (m_plugboard e') (plug_get (m_plugboard e') c) = c) ABC"
proof (cases "pb = []")
  case True
  have "list_all (\<lambda>c. plug_get Map.empty c \<in> set ABC \<and>
          plug_get Map.empty (plug_get Map.empty c) = c) ABC"
    by (simp add: list_all_iff plug_get_def)
  with True p show ?thesis by (auto simp: plugboard_set_def)
next
  case False
  with p have l: "\<forall>p \<in> set pb. length p = 2"
    by (auto simp: plugboard_set_def Let_def split: if_splits)
  from plugboard_loop_ok [OF l a d, of Map.empty] obtain m where
    m: "plugboard_loop Map.empty pb = (None, m)" "\<forall>x y. m x = Some y \<longrightarrow> m y = Some x"
    "dom m \<subseteq> set ABC" by auto
  from p False m(1) have "e' = e\<lparr>m_plugboard := m\<rparr>"
    by (auto simp: plugboard_set_def Let_def split: if_splits)
  with plug_get_involution [OF m(2,3)] show ?thesis by simp
qed

lemma InternalReflector_Inr:
  assumes i: "InternalReflector b = Inr rf" and w: "set (wiring b) \<subseteq> set ABC"
  shows "perm_ABC (wiring rf) \<and> self_inverse (wiring rf)"
proof -
  from i obtain r where r: "Reflector (wiring b) = Inr r" and e: "wiring rf = wiring r"
    by (auto simp: InternalReflector_def rbind_eq_Inr)
  from r obtain x where "Rotor (wiring b) None ''A'' = Inr x"
    by (auto simp: Reflector_def rbind_eq_Inr)
  from Rotor_Inr [OF this] have "length (wiring b) = 26" "card (set (wiring b)) = 26"
    by simp_all
  from perm_ABC_I [OF this w] have p: "perm_ABC (wiring b)" .
  from Reflector_value [OF p] r have "self_inverse (wiring b)" "wiring r = wiring b"
    by (auto split: if_splits)
  with p e show ?thesis by simp
qed

lemma setter_then_Inr:
  "setter_then m f = Inr y \<longleftrightarrow> (\<exists>e. m = (None, e) \<and> f e = Inr y)"
  by (cases m) (auto simp: setter_then_def split: option.splits)

text \<open>
  The machines the constructor builds are in working order, when the rotors and the
  reflector are wired over the letters A-Z, the two rightmost rotors have notches and
  the plugboard letters are ASCII letters, all different when upper-cased.
\<close>

lemma Enigma_valid:
  assumes c: "Enigma rotors reflector ringst plugboard ds grundst = Inr e"
    and w: "\<forall>b \<in> set (reflector # rotors). set (wiring b) \<subseteq> set ABC"
    and n: "notch (rotors ! (length rotors - 1)) \<noteq> None"
      "notch (rotors ! (length rotors - 2)) \<noteq> None"
    and p: "set (concat plugboard) \<subseteq> set ascii_letters" "distinct (upper (concat plugboard))"
  shows "valid_machine e"
proof -
  from c obtain rf e1 e2 e3 where
    rf: "InternalReflector reflector = Inr rf"
    and s1: "rotors_set \<lparr>m_rotors = [], m_reflector = rf, m_plugboard = Map.empty,
                         doublestep = ds\<rparr> rotors = (None, e1)"
    and s2: "ringstellung_set e1
        (if ringst = [] then replicate (length rotors) (CHR ''A'') else ringst) = (None, e2)"
    and s3: "grundstellung_set e2
        (if grundst = [] then replicate (length rotors) (CHR ''A'') else grundst) = (None, e3)"
    and s4: "plugboard_set e3 plugboard = (None, e)"
    unfolding Enigma_def rbind_eq_Inr setter_then_Inr by blast
  from w have wr: "set (wiring reflector) \<subseteq> set ABC"
    and ws: "\<forall>b \<in> set rotors. set (wiring b) \<subseteq> set ABC" by simp_all
  from InternalReflector_Inr [OF rf wr]
  have r: "perm_ABC (wiring rf)" "self_inverse (wiring rf)" by simp_all
  from s1 obtain rs1 where
    l: "length rotors = 3 \<or> length rotors = 4"
    and m1: "map_result (\<lambda>r. InternalRotor r ''A'') rotors = Inr rs1"
    and e1: "m_rotors e1 = rs1" "m_reflector e1 = rf"
    by (auto simp: rotors_set_def Let_def split: if_splits sum.splits)
  from InternalRotors_Inr [OF m1 ws] have i1: "length rs1 = length rotors"
    "list_all wf_rotor rs1"
    "\<forall>i < length rotors. notch (rotors ! i) \<noteq> None \<longrightarrow> notch (rs1 ! i) \<noteq> None"
    by simp_all
  from s2 obtain rs2 where
    l2: "ringstellung_loop (m_rotors e1)
           (upper (if ringst = [] then replicate (length rotors) (CHR ''A'') else ringst))
         = (None, rs2)"
    and e2: "m_rotors e2 = rs2" "m_reflector e2 = m_reflector e1"
    by (auto simp: ringstellung_set_def split: if_splits prod.splits)
  from ringstellung_loop_wf [OF l2] e1 i1(2)
  have i2: "list_all wf_rotor rs2" "map notch rs2 = map notch rs1" by simp_all
  from s3 obtain rs3 where
    l3: "grundstellung_loop (m_rotors e2)
           (upper (if grundst = [] then replicate (length rotors) (CHR ''A'') else grundst))
         = (None, rs3)"
    and e3: "m_rotors e3 = rs3" "m_reflector e3 = m_reflector e2"
    by (auto simp: grundstellung_set_def split: if_splits prod.splits)
  from grundstellung_loop_wf [OF l3] e2 i2(1)
  have i3: "list_all wf_rotor rs3" "map notch rs3 = map notch rs2" by simp_all
  from i3(2) i2(2) have mn: "map notch rs3 = map notch rs1" by simp
  then have l3': "length rs3 = length rotors" using i1(1) by (metis length_map)
  have nn: "notch (rs3 ! i) = notch (rs1 ! i)" if "i < length rotors" for i
    using mn that l3' i1(1) by (metis nth_map)
  from l have k: "length rotors - 1 < length rotors" "length rotors - 2 < length rotors"
    by auto
  have ok: "rotors_ok rs3"
    using l l3' i3(1) n i1(3) k nn [OF k(1)] nn [OF k(2)] by (simp add: rotors_ok_def)
  from plugboard_set_valid [OF s4 p] e3 e2 e1 ok r show ?thesis
    by (simp add: valid_machine_def)
qed

section \<open>Encoding twice, and the test of the message\<close>

text \<open>
  Claim C1, as amended. On a machine in working order, with a starting position of one
  ASCII letter per rotor, encoding a non-empty message of ASCII letters and encoding
  the result again from the same starting position returns the message in upper
  case; it returns the message itself when the message is in upper case. The machines
  the constructor builds are in working order under the conditions of
  \<open>Enigma_valid\<close>.
\<close>

theorem encode_twice_upper:
  assumes "valid_machine e" and "length P = length (m_rotors e)"
    and "set P \<subseteq> set ascii_letters" and "msg \<noteq> []" and "set msg \<subseteq> set ascii_letters"
  shows "rbind (encode e msg (Some P))
           (\<lambda>(c, e1). rbind (encode e1 c (Some P)) (\<lambda>(m, e2). Inr m)) = Inr (upper msg)
       \<and> (set msg \<subseteq> set ABC \<longrightarrow>
            rbind (encode e msg (Some P))
              (\<lambda>(c, e1). rbind (encode e1 c (Some P)) (\<lambda>(m, e2). Inr m)) = Inr msg)"
proof -
  from encode_twice [OF assms] obtain c e1 e2
    where "encode e msg (Some P) = Inr (c, e1)" "encode e1 c (Some P) = Inr (upper msg, e2)"
    by blast
  then have "rbind (encode e msg (Some P))
           (\<lambda>(c, e1). rbind (encode e1 c (Some P)) (\<lambda>(m, e2). Inr m)) = Inr (upper msg)"
    by simp
  then show ?thesis using upper_ABC [of msg] by simp
qed

theorem encode_twice_upper_witness:
  "valid_machine (projr (Enigma [I, II, III] UKWB ''AAA'' [''AB'', ''cd''] True []))
   \<and> length ''ADT'' = length (m_rotors (projr (Enigma [I, II, III] UKWB ''AAA'' [''AB'', ''cd''] True [])))
   \<and> set ''ADT'' \<subseteq> set ascii_letters \<and> ''HELLO'' \<noteq> [] \<and> set ''HELLO'' \<subseteq> set ABC
   \<and> rbind (encode (projr (Enigma [I, II, III] UKWB ''AAA'' [''AB'', ''cd''] True [])) ''HELLO'' (Some ''ADT''))
        (\<lambda>(c, e1). rbind (encode e1 c (Some ''ADT'')) (\<lambda>(m, e2). Inr m)) = Inr ''HELLO''"
proof -
  let ?M = "projr (Enigma [I, II, III] UKWB ''AAA'' [''AB'', ''cd''] True [])"
  have 1: "valid_machine ?M" by code_simp
  have 2: "length ''ADT'' = length (m_rotors ?M)" by code_simp
  have 3: "set ''ADT'' \<subseteq> set ascii_letters" by code_simp
  have 4: "''HELLO'' \<noteq> []" by simp
  have 5: "set ''HELLO'' \<subseteq> set ABC" by code_simp
  have 6: "set ''HELLO'' \<subseteq> set ascii_letters" using 5 ABC_ascii by (rule subset_trans)
  note t = encode_twice_upper [OF 1 2 3 4 6]
  from t [THEN conjunct2] 5
  have 7: "rbind (encode ?M ''HELLO'' (Some ''ADT''))
        (\<lambda>(c, e1). rbind (encode e1 c (Some ''ADT'')) (\<lambda>(m, e2). Inr m)) = Inr ''HELLO''"
    by (rule mp)
  from 1 2 3 4 5 7 show ?thesis by (intro conjI)
qed

text \<open>
  Claim C6, as amended. \<^verbatim>\<open>encode(message)\<close> raises EnigmaError exactly when
  \<^verbatim>\<open>message.isalpha()\<close> is false: the message is empty or holds a character that is not a
  letter. On a machine in working order, every non-empty message of ASCII letters is
  encoded without an exception, into as many letters of the alphabet.
\<close>

theorem encode_message_check:
  "((encode e msg None = Inl EnigmaError) = (msg = [] \<or> (\<exists>c \<in> set msg. \<not> isalpha_chr c)))
   \<and> (valid_machine e \<and> msg \<noteq> [] \<and> set msg \<subseteq> set ascii_letters \<longrightarrow>
        (\<exists>out e'. encode e msg None = Inr (out, e') \<and> length out = length msg
                   \<and> set out \<subseteq> set ABC))"
proof -
  have "(encode e msg None = Inl EnigmaError) = (msg = [] \<or> (\<exists>c \<in> set msg. \<not> isalpha_chr c))"
    by (auto simp: encode_EnigmaError isalpha_def list_all_iff)
  then show ?thesis using encode_None_ok [of e msg] by blast
qed

theorem encode_message_check_witness:
  "valid_machine (projr (Enigma [I, II, III] UKWB ''AAA'' [''AB'', ''cd''] True []))
   \<and> ''Hello'' \<noteq> [] \<and> set ''Hello'' \<subseteq> set ascii_letters
   \<and> (\<exists>out e'. encode (projr (Enigma [I, II, III] UKWB ''AAA'' [''AB'', ''cd''] True []))
                   ''Hello'' None = Inr (out, e') \<and> length out = length ''Hello''
                 \<and> set out \<subseteq> set ABC)
   \<and> encode (projr (Enigma [I, II, III] UKWB ''AAA'' [''AB'', ''cd''] True [])) ''A1'' None
       = Inl EnigmaError"
proof -
  let ?M = "projr (Enigma [I, II, III] UKWB ''AAA'' [''AB'', ''cd''] True [])"
  have 1: "valid_machine ?M" by code_simp
  have 2: "''Hello'' \<noteq> []" by simp
  have 3: "set ''Hello'' \<subseteq> set ascii_letters" by code_simp
  from encode_message_check [of ?M "''Hello''", THEN conjunct2] 1 2 3
  have 4: "\<exists>out e'. encode ?M ''Hello'' None = Inr (out, e') \<and> length out = length ''Hello''
                 \<and> set out \<subseteq> set ABC"
    by blast
  have "\<exists>c \<in> set ''A1''. \<not> isalpha_chr c" by code_simp
  with encode_message_check [of ?M "''A1''", THEN conjunct1]
  have 5: "encode ?M ''A1'' None = Inl EnigmaError" by blast
  from 1 2 3 4 5 show ?thesis by (intro conjI)
qed

section \<open>The named rotors in a machine\<close>

lemma ROTORLIST_internal:
  assumes "b \<in> fst ` set ROTORLIST"
  shows "\<exists>r0. InternalRotor b ''A'' = Inr r0"
proof -
  have "list_all (\<lambda>x. case x of Inl _ \<Rightarrow> False | Inr _ \<Rightarrow> True)
          [InternalRotor I ''A'', InternalRotor II ''A'', InternalRotor III ''A'',
           InternalRotor IV ''A'', InternalRotor V ''A'', InternalRotor VI ''A'',
           InternalRotor VII ''A'', InternalRotor VIII ''A'', InternalRotor BETA ''A'',
           InternalRotor GAMMA ''A'']"
    by code_simp
  with assms have "case InternalRotor b ''A'' of Inl _ \<Rightarrow> False | Inr _ \<Rightarrow> True"
    by (auto simp: ROTORLIST_def)
  then show ?thesis by (cases "InternalRotor b ''A''") simp_all
qed

text \<open>
  Claim C4. For each of the rotors I-VIII, BETA and GAMMA: the rotor as a machine
  creates it, set to any ring \<^verbatim>\<open>rg\<close> and any position \<^verbatim>\<open>p\<close> and remapped, satisfies
  \<^verbatim>\<open>left2right(right2left(c)) == c\<close> and \<^verbatim>\<open>right2left(left2right(c)) == c\<close> for every
  letter \<^verbatim>\<open>c\<close> of the alphabet, and none of the calls raises.
\<close>

theorem rotor_halves_inverse:
  assumes "b \<in> fst ` set ROTORLIST" and "c \<in> set ABC"
  shows "\<exists>r0 r. InternalRotor b ''A'' = Inr r0
           \<and> remap (r0\<lparr>ring := rg, pos := p\<rparr>) = Inr r
           \<and> rbind (right2left r c) (left2right r) = Inr c
           \<and> rbind (left2right r c) (right2left r) = Inr c"
proof -
  from ROTORLIST_internal [OF assms(1)] obtain r0 where r0: "InternalRotor b ''A'' = Inr r0" ..
  from ROTORLIST_perm [OF assms(1)] have "set (wiring b) \<subseteq> set ABC" by (simp add: perm_ABC_def)
  from InternalRotor_Inr [OF r0 this] have "perm_ABC (wiring r0)" by (simp add: wf_rotor_def)
  then have "perm_ABC (wiring (r0\<lparr>ring := rg, pos := p\<rparr>))" by simp
  from remap_perm [OF this] obtain r where r: "remap (r0\<lparr>ring := rg, pos := p\<rparr>) = Inr r"
    and m: "perm_ABC (mapping r)" by blast
  from left2right_right2left [OF m assms(2)] right2left_left2right [OF m assms(2)]
  have "rbind (right2left r c) (left2right r) = Inr c"
    "rbind (left2right r c) (right2left r) = Inr c" by auto
  with r0 r show ?thesis by blast
qed

theorem rotor_halves_inverse_witness:
  "VI \<in> fst ` set ROTORLIST \<and> CHR ''E'' \<in> set ABC
   \<and> (\<exists>r0 r. InternalRotor VI ''A'' = Inr r0
           \<and> remap (r0\<lparr>ring := 3, pos := 10\<rparr>) = Inr r
           \<and> rbind (right2left r CHR ''E'') (left2right r) = Inr CHR ''E''
           \<and> rbind (left2right r CHR ''E'') (right2left r) = Inr CHR ''E'')"
proof -
  have 1: "VI \<in> fst ` set ROTORLIST" by (simp add: ROTORLIST_def)
  have 2: "CHR ''E'' \<in> set ABC" by (simp add: ABC_def)
  from 1 2 rotor_halves_inverse [OF 1 2, where rg = 3 and p = 10] show ?thesis by (intro conjI)
qed

section \<open>Rejected assignments\<close>

text \<open>
  A rejected assignment of rotors, reflector or plugboard leaves the machine as it was.
  So do the ring and position setters when the new setting consists of ASCII letters;
  the theorem for claim C9 above shows what they do on another letter.
\<close>

lemma rotors_set_rejected: "rotors_set e rotors = (Some err, e') \<Longrightarrow> e' = e"
  by (auto simp: rotors_set_def Let_def split: if_splits sum.splits)

lemma reflector_set_rejected: "reflector_set e reflector = (Some err, e') \<Longrightarrow> e' = e"
  by (auto simp: reflector_set_def split: sum.splits)

lemma upper_chr_not_Nil: "upper_chr c \<noteq> []"
  by (simp add: upper_chr_def Let_def)

lemma plugboard_loop_no_error:
  "\<forall>p \<in> set ps. length p = 2 \<Longrightarrow> \<exists>m'. plugboard_loop m ps = (None, m')"
proof (induction ps arbitrary: m)
  case Nil
  then show ?case by simp
next
  case (Cons p ps)
  then have "length p = 2" by simp
  then obtain a b where p: "p = [a, b]" by (cases p) (auto simp: length_Suc_conv)
  obtain x xs where x: "upper_chr a = x # xs" using upper_chr_not_Nil [of a] by (cases "upper_chr a") auto
  obtain y ys where y: "upper_chr b = y # ys" using upper_chr_not_Nil [of b] by (cases "upper_chr b") auto
  obtain u v rest where u: "upper [a, b] = u # v # rest"
    using x y by (cases xs) (simp_all add: upper_def)
  from Cons.prems have "\<forall>p \<in> set ps. length p = 2" by simp
  from Cons.IH [OF this] p u show ?case by simp
qed

lemma plugboard_set_rejected:
  assumes "plugboard_set e plugboard = (Some err, e')"
  shows "e' = e"
proof (cases "\<forall>p \<in> set plugboard. length p = 2")
  case True
  from plugboard_loop_no_error [OF True, of Map.empty] obtain m
    where "plugboard_loop Map.empty plugboard = (None, m)" ..
  with assms show ?thesis by (auto simp: plugboard_set_def Let_def split: if_splits)
next
  case False
  with assms show ?thesis by (auto simp: plugboard_set_def Let_def split: if_splits)
qed

lemma grundstellung_set_rejected:
  assumes "grundstellung_set e g = (Some err, e')"
    and "list_all (\<lambda>r. perm_ABC (wiring r)) (m_rotors e)" and "set g \<subseteq> set ascii_letters"
  shows "e' = e"
proof (cases "isalpha g \<and> length g = length (m_rotors e)")
  case True
  from upper_ascii [OF assms(3)] True have "set (upper g) \<subseteq> set ABC"
    "length (upper g) = length (m_rotors e)" by simp_all
  from grundstellung_loop_ok [OF assms(2) this] obtain rs where
    "grundstellung_loop (m_rotors e) (upper g) = (None, rs)" by blast
  with assms(1) True show ?thesis by (simp add: grundstellung_set_def)
next
  case False
  with assms(1) show ?thesis by (auto simp: grundstellung_set_def split: if_splits)
qed

lemma remap_ring_total:
  assumes "perm_ABC (wiring r)"
  shows "\<exists>r'. remap (r\<lparr>ring := i\<rparr>) = Inr r' \<and> wiring r' = wiring r"
proof -
  have p: "perm_ABC (wiring (r\<lparr>ring := i\<rparr>))" using assms by simp
  from remap_perm [OF p] obtain r' where r': "remap (r\<lparr>ring := i\<rparr>) = Inr r'"
    "r' = r\<lparr>ring := i\<rparr>\<lparr>mapping := mapping r'\<rparr>" by blast
  from arg_cong [OF r'(2), of wiring] have "wiring r' = wiring r" by simp
  with r'(1) show ?thesis by blast
qed

lemma ringstellung_loop_no_error:
  assumes "list_all (\<lambda>r. perm_ABC (wiring r)) rs" and "set cs \<subseteq> set ABC"
  shows "\<exists>rs'. ringstellung_loop rs cs = (None, rs')"
  using assms
proof (induction rs cs rule: ringstellung_loop.induct)
  case (1 r rs c cs)
  from "1.prems" have c: "c \<in> set ABC" and r: "perm_ABC (wiring r)"
    and rs: "list_all (\<lambda>r. perm_ABC (wiring r)) rs" and cs: "set cs \<subseteq> set ABC" by simp_all
  from c obtain i where i: "index_str ABC c = Inr i" using index_str_mem by blast
  from remap_ring_total [OF r] obtain r' where r': "remap (r\<lparr>ring := i\<rparr>) = Inr r'" by blast
  from "1.IH" [OF i r' rs cs] obtain rs' where "ringstellung_loop rs cs = (None, rs')" ..
  with i r' show ?case by simp
qed simp_all

lemma ringstellung_set_rejected:
  assumes "ringstellung_set e g = (Some err, e')"
    and "list_all (\<lambda>r. perm_ABC (wiring r)) (m_rotors e)" and "set g \<subseteq> set ascii_letters"
  shows "e' = e"
proof (cases "isalpha g \<and> length g = length (m_rotors e)")
  case True
  from upper_ascii [OF assms(3)] have "set (upper g) \<subseteq> set ABC" by simp
  from ringstellung_loop_no_error [OF assms(2) this] obtain rs where
    "ringstellung_loop (m_rotors e) (upper g) = (None, rs)" ..
  with assms(1) True show ?thesis by (simp add: ringstellung_set_def)
next
  case False
  with assms(1) show ?thesis by (auto simp: ringstellung_set_def split: if_splits)
qed

end
